theory Spec2Isabelle
  imports Complex_Main
begin

section \<open>Values, errors and the engine state of KMeans.py\<close>

text \<open>
  KMeans.py is Python 2 code (\<^verbatim>\<open>xrange\<close> in \<^verbatim>\<open>reset_clusters\<close> and
  \<^verbatim>\<open>get_clusters\<close>). The components of a point are any objects that support addition
  and division. The model is polymorphic in the component type \<open>'a\<close>, of sort
  \<open>{linordered_idom, divide}\<close>: at \<open>int\<close> the constant \<open>divide\<close> is the floor division
  that Python 2 performs for \<^verbatim>\<open>x / n\<close> on \<^verbatim>\<open>int\<close> and \<^verbatim>\<open>long\<close> (unbounded, so no
  wrap-around), at \<open>rat\<close> and \<open>real\<close> it is exact division (Python's \<^verbatim>\<open>Fraction\<close>).

  An argument of \<^verbatim>\<open>add_data\<close>, \<^verbatim>\<open>add_centroid\<close> or \<^verbatim>\<open>find_cluster\<close> is a bare scalar or a
  tuple of scalars. Two Python values of different shape are never equal:
  \<^verbatim>\<open>5 == (5,)\<close> is false.
\<close>

datatype 'a pyval = Scalar 'a | Tuple "'a list"

text \<open>
  The four \<^verbatim>\<open>ValueError\<close>s of the source are told apart by their message; \<open>TypeError\<close> is
  what \<^verbatim>\<open>len\<close> raises on a scalar and \<open>IndexError\<close> what indexing a list out of range
  raises.
\<close>

datatype error =
    DimensionMismatch
  | EmptySequence
  | NoCentroidsDefined
  | InsufficientData
  | TypeError
  | IndexError

text \<open>
  The fields \<^verbatim>\<open>_dist\<close>, \<^verbatim>\<open>_kctr\<close>, \<^verbatim>\<open>_kmem\<close> and \<^verbatim>\<open>_data\<close> of a \<^verbatim>\<open>KMeans\<close> object. A Python
  \<^verbatim>\<open>set\<close> is a list here, iterated in list order; \<open>set_add\<close> and \<open>set_discard\<close> keep
  it free of duplicates. Python leaves the iteration order of a set open, and so does
  every theorem below that quantifies over the state.
\<close>

record ('a, 'v) kmeans =
  dist_fn :: "'a pyval \<Rightarrow> 'a pyval \<Rightarrow> error + 'v"
  kctr :: "'a list list"
  kmem :: "'a list list list"
  data :: "'a list list"

definition set_add :: "'x \<Rightarrow> 'x list \<Rightarrow> 'x list" where
  "set_add x xs = (if x \<in> set xs then xs else xs @ [x])"

definition set_discard :: "'x \<Rightarrow> 'x list \<Rightarrow> 'x list" where
  "set_discard x xs = removeAll x xs"

text \<open>
  \<^verbatim>\<open>tuple(iter(pt))\<close>, and \<^verbatim>\<open>(pt,)\<close> when \<^verbatim>\<open>iter\<close> raises \<^verbatim>\<open>TypeError\<close>: the
  normalisation that \<^verbatim>\<open>add_centroid\<close> and \<^verbatim>\<open>add_data\<close> write inline.
\<close>

definition as_tuple :: "'a pyval \<Rightarrow> 'a list" where
  "as_tuple pt = (case pt of Tuple xs \<Rightarrow> xs | Scalar x \<Rightarrow> [x])"

section \<open>The distance metric and argmin\<close>

definition euclidean_distance ::
  "('a::{linordered_idom, divide}) pyval \<Rightarrow> 'a pyval \<Rightarrow> error + 'a" where
  "euclidean_distance pt1 pt2 =
     (case pt1 of
        Scalar _ \<Rightarrow> Inl TypeError
      | Tuple p \<Rightarrow>
          (case pt2 of
             Scalar _ \<Rightarrow> Inl TypeError
           | Tuple q \<Rightarrow>
               if length p \<noteq> length q then Inl DimensionMismatch
               else Inr (sum_list (map (\<lambda>(x, y). (x - y) ^ 2) (zip p q)))))"

text \<open>
  The loop of \<^verbatim>\<open>argmin\<close> over the rest of the iterator: \<open>pos\<close> is the counter of
  \<^verbatim>\<open>enumerate\<close>, \<open>mv\<close> the least value so far and \<open>mp\<close> its offset.
\<close>

fun argmin_loop ::
  "('x \<Rightarrow> error + 'v::linorder) \<Rightarrow> 'x list \<Rightarrow> nat \<Rightarrow> 'v \<Rightarrow> nat \<Rightarrow> error + nat" where
  "argmin_loop fn [] pos mv mp = Inr mp"
| "argmin_loop fn (val # rest) pos mv mp =
     (case fn val of
        Inl e \<Rightarrow> Inl e
      | Inr cv \<Rightarrow>
          if cv < mv then argmin_loop fn rest (pos + 1) cv (pos + 1)
          else argmin_loop fn rest (pos + 1) mv mp)"

definition argmin :: "('x \<Rightarrow> error + 'v::linorder) \<Rightarrow> 'x list \<Rightarrow> error + nat" where
  "argmin fn C =
     (case C of
        [] \<Rightarrow> Inl EmptySequence
      | x # rest \<Rightarrow>
          (case fn x of
             Inl e \<Rightarrow> Inl e
           | Inr mv \<Rightarrow> argmin_loop fn rest 0 mv 0))"

section \<open>The operations of the class KMeans\<close>

text \<open>
  A method that mutates the object returns the state it leaves behind together with its
  outcome: \<open>Inl e\<close> when it raises \<open>e\<close> (the state is then the one at the raise), \<open>Inr r\<close>
  when it returns \<open>r\<close>.
\<close>

definition KMeans_init :: "('a pyval \<Rightarrow> 'a pyval \<Rightarrow> error + 'v) \<Rightarrow> ('a, 'v) kmeans" where
  "KMeans_init d = \<lparr>dist_fn = d, kctr = [], kmem = [], data = []\<rparr>"

definition clear :: "('a, 'v) kmeans \<Rightarrow> ('a, 'v) kmeans" where
  "clear s = s\<lparr>kctr := [], kmem := [], data := []\<rparr>"

text \<open>The nearest centroid of a point: the call of \<^verbatim>\<open>argmin\<close> that three methods share.\<close>

definition nearest :: "('a, 'v::linorder) kmeans \<Rightarrow> 'a pyval \<Rightarrow> error + nat" where
  "nearest s pt = argmin (\<lambda>c. dist_fn s pt (Tuple c)) (kctr s)"

fun find_member :: "'a pyval \<Rightarrow> 'a list list list \<Rightarrow> nat \<Rightarrow> nat option" where
  "find_member pt [] pos = None"
| "find_member pt (d # ds) pos =
     (if pt \<in> Tuple ` set d then Some pos else find_member pt ds (pos + 1))"

definition find_cluster :: "('a, 'v::linorder) kmeans \<Rightarrow> 'a pyval \<Rightarrow> error + 'a list" where
  "find_cluster s pt =
     (case find_member pt (kmem s) 0 of
        Some pos \<Rightarrow> if pos < length (kctr s) then Inr (kctr s ! pos) else Inl IndexError
      | None \<Rightarrow>
          (case nearest s pt of
             Inl e \<Rightarrow> Inl e
           | Inr ploc \<Rightarrow>
               if ploc < length (kctr s) then Inr (kctr s ! ploc) else Inl IndexError))"

definition reset_clusters :: "('a, 'v) kmeans \<Rightarrow> ('a, 'v) kmeans" where
  "reset_clusters s = s\<lparr>kmem := map (\<lambda>_. []) (kmem s)\<rparr>"

definition reset_centroids :: "('a, 'v) kmeans \<Rightarrow> ('a, 'v) kmeans" where
  "reset_centroids s = s\<lparr>kctr := []\<rparr>"

definition add_centroid :: "('a, 'v) kmeans \<Rightarrow> 'a pyval \<Rightarrow> ('a, 'v) kmeans" where
  "add_centroid s pt =
     (if pt \<notin> Tuple ` set (kctr s)
      then s\<lparr>kctr := kctr s @ [as_tuple pt], kmem := kmem s @ [[]]\<rparr>
      else s)"

definition add_data :: "('a, 'v) kmeans \<Rightarrow> 'a pyval \<Rightarrow> 'a pyval list \<Rightarrow> ('a, 'v) kmeans" where
  "add_data s pt pts = fold (\<lambda>elt t. t\<lparr>data := set_add (as_tuple elt) (data t)\<rparr>) (pt # pts) s"

text \<open>
  \<^verbatim>\<open>random_centroids\<close> draws from \<^verbatim>\<open>randint(1, len(d))\<close> until \<open>k\<close> distinct points are
  chosen. The draws are an argument here; \<open>None\<close> says that the draws given did not
  suffice (or that one was out of the range of \<^verbatim>\<open>randint\<close>).
\<close>

fun choose_loop :: "'x list \<Rightarrow> int \<Rightarrow> 'x list \<Rightarrow> nat list \<Rightarrow> 'x list option" where
  "choose_loop d k c rs =
     (if int (length c) < k then
        (case rs of
           [] \<Rightarrow> None
         | r # rs' \<Rightarrow>
             if 1 \<le> r \<and> r \<le> length d then choose_loop d k (set_add (d ! (r - 1)) c) rs'
             else None)
      else Some c)"

definition random_centroids ::
  "('a, 'v) kmeans \<Rightarrow> int \<Rightarrow> nat list \<Rightarrow> (('a, 'v) kmeans \<times> (error + unit)) option" where
  "random_centroids s k rs =
     (if int (length (data s)) < k then Some (s, Inl InsufficientData)
      else
        (case choose_loop (data s) k [] rs of
           None \<Rightarrow> None
         | Some c \<Rightarrow> Some (s\<lparr>kctr := c, kmem := map (\<lambda>_. []) c\<rparr>, Inr ())))"

fun assign_all ::
  "('a, 'v::linorder) kmeans \<Rightarrow> 'a list list \<Rightarrow> ('a, 'v) kmeans \<times> (error + unit)" where
  "assign_all s [] = (s, Inr ())"
| "assign_all s (pt # pts) =
     (case nearest s (Tuple pt) of
        Inl e \<Rightarrow> (s, Inl e)
      | Inr ploc \<Rightarrow>
          if ploc < length (kmem s)
          then assign_all (s\<lparr>kmem := (kmem s)[ploc := set_add pt (kmem s ! ploc)]\<rparr>) pts
          else (s, Inl IndexError))"

definition start :: "('a, 'v::linorder) kmeans \<Rightarrow> ('a, 'v) kmeans \<times> (error + unit)" where
  "start s =
     (if length (kctr s) = 0 then (s, Inl NoCentroidsDefined)
      else assign_all (reset_clusters s) (data s))"

text \<open>The local function \<^verbatim>\<open>centroid\<close> of \<^verbatim>\<open>step\<close>, and its inner loop over one point.\<close>

fun add_into :: "('a::{linordered_idom, divide}) list \<Rightarrow> 'a list \<Rightarrow> 'a list" where
  "add_into cur [] = cur"
| "add_into [] (v # p) = []"
| "add_into (c # cur) (v # p) = (c + v) # add_into cur p"

definition centroid :: "('a::{linordered_idom, divide}) list list \<Rightarrow> 'a list" where
  "centroid pts =
     map (\<lambda>x. divide x (of_nat (length pts)))
       (fold (\<lambda>p cur. add_into cur p) pts (replicate (fold max (map length pts) 0) 0))"

fun recompute ::
  "('a::{linordered_idom, divide}, 'v) kmeans \<Rightarrow> nat \<Rightarrow> 'a list list list \<Rightarrow>
     ('a, 'v) kmeans \<times> (error + unit)" where
  "recompute s pos [] = (s, Inr ())"
| "recompute s pos (d # ds) =
     (if length d > 0 then
        (if pos < length (kctr s)
         then recompute (s\<lparr>kctr := (kctr s)[pos := centroid d]\<rparr>) (pos + 1) ds
         else (s, Inl IndexError))
      else recompute s (pos + 1) ds)"

fun move_points ::
  "('a, 'v::linorder) kmeans \<Rightarrow> nat \<Rightarrow> 'a list list \<Rightarrow> nat \<Rightarrow> ('a, 'v) kmeans \<times> (error + nat)" where
  "move_points s cloc [] moves = (s, Inr moves)"
| "move_points s cloc (pt # pts) moves =
     (case nearest s (Tuple pt) of
        Inl e \<Rightarrow> (s, Inl e)
      | Inr ploc \<Rightarrow>
          if ploc \<noteq> cloc then
            (let s1 = s\<lparr>kmem := (kmem s)[cloc := set_discard pt (kmem s ! cloc)]\<rparr>
             in if ploc < length (kmem s1)
                then move_points (s1\<lparr>kmem := (kmem s1)[ploc := set_add pt (kmem s1 ! ploc)]\<rparr>)
                       cloc pts (moves + 1)
                else (s1, Inl IndexError))
          else move_points s cloc pts moves)"

fun reassign ::
  "('a, 'v::linorder) kmeans \<Rightarrow> nat list \<Rightarrow> nat \<Rightarrow> ('a, 'v) kmeans \<times> (error + nat)" where
  "reassign s [] moves = (s, Inr moves)"
| "reassign s (cloc # rest) moves =
     (case move_points s cloc (kmem s ! cloc) moves of
        (s', Inl e) \<Rightarrow> (s', Inl e)
      | (s', Inr m) \<Rightarrow> reassign s' rest m)"

definition step ::
  "('a::{linordered_idom, divide}, 'v::linorder) kmeans \<Rightarrow> ('a, 'v) kmeans \<times> (error + nat)" where
  "step s =
     (case recompute s 0 (kmem s) of
        (s1, Inl e) \<Rightarrow> (s1, Inl e)
      | (s1, Inr _) \<Rightarrow> reassign s1 [0..<length (kmem s1)] 0)"

text \<open>
  The loop of \<^verbatim>\<open>run\<close>. The argument \<^verbatim>\<open>max\<close> is \<open>maxi\<close> here: it is \<open>None\<close> for Python's \<^verbatim>\<open>None\<close>, which in Python 2 is
  neither equal to nor greater than \<^verbatim>\<open>0\<close>. The loop need not end, so it is a partial
  function whose value \<open>None\<close> is "does not return". The last component of the result
  counts the calls of \<^verbatim>\<open>step\<close> made; the source keeps no such counter.
\<close>

partial_function (option) run_loop ::
  "('a::{linordered_idom, divide}, 'v::linorder) kmeans \<Rightarrow> int option \<Rightarrow> nat \<Rightarrow>
     (('a, 'v) kmeans \<times> (error + unit) \<times> nat) option" where
  "run_loop s maxi calls =
     (case step s of
        (s', Inl e) \<Rightarrow> Some (s', Inl e, calls + 1)
      | (s', Inr moves) \<Rightarrow>
          if moves \<noteq> 0 then
            (if maxi = Some 0 then Some (s', Inr (), calls + 1)
             else run_loop s'
                    (case maxi of None \<Rightarrow> None | Some m \<Rightarrow> if m > 0 then Some (m - 1) else Some m)
                    (calls + 1))
          else Some (s', Inr (), calls + 1))"

definition run ::
  "('a::{linordered_idom, divide}, 'v::linorder) kmeans \<Rightarrow> int option \<Rightarrow>
     (('a, 'v) kmeans \<times> (error + unit) \<times> nat) option" where
  "run s maxi =
     (case start s of
        (s0, Inl e) \<Rightarrow> Some (s0, Inl e, 0)
      | (s0, Inr _) \<Rightarrow> run_loop s0 maxi 0)"

definition get_clusters :: "('a, 'v) kmeans \<Rightarrow> error + ('a list \<times> 'a list list) list" where
  "get_clusters s =
     (if length (kctr s) \<le> length (kmem s)
      then Inr (map (\<lambda>p. (kctr s ! p, kmem s ! p)) [0..<length (kctr s)])
      else Inl IndexError)"

declare run_loop.simps [code]

section \<open>Engines built by the public operations\<close>

text \<open>
  The engines at which the theorems below evaluate the code, each built from a fresh
  \<^verbatim>\<open>KMeans()\<close> by public operations on \<^verbatim>\<open>int\<close> points.

  \<open>ex_run\<close>: \<^verbatim>\<open>add_data((0,), (1,), (10,)); add_centroid((0,)); add_centroid((1,))\<close>.
\<close>

definition ex_run :: "(int, int) kmeans" where
  "ex_run =
     add_centroid
       (add_centroid
          (add_data (KMeans_init euclidean_distance) (Tuple [0]) [Tuple [1], Tuple [10]])
          (Tuple [0]))
       (Tuple [1])"

text \<open>\<open>ex_dup\<close>: \<^verbatim>\<open>add_centroid(5)\<close>.\<close>

definition ex_dup :: "(int, int) kmeans" where
  "ex_dup = add_centroid (KMeans_init euclidean_distance) (Scalar 5)"

text \<open>
  \<open>ex_stale\<close>: \<^verbatim>\<open>add_data((0,), (10,)); add_centroid((0,)); add_centroid((10,)); start();
  reset_centroids(); add_centroid((10,))\<close>.
\<close>

definition ex_stale :: "(int, int) kmeans" where
  "ex_stale =
     add_centroid
       (reset_centroids
          (fst (start
             (add_centroid
                (add_centroid
                   (add_data (KMeans_init euclidean_distance) (Tuple [0]) [Tuple [10]])
                   (Tuple [0]))
                (Tuple [10])))))
       (Tuple [10])"

text \<open>\<open>ex_scalar\<close>: \<^verbatim>\<open>add_data(7); add_centroid(3); start()\<close>.\<close>

definition ex_scalar :: "(int, int) kmeans" where
  "ex_scalar =
     fst (start
       (add_centroid (add_data (KMeans_init euclidean_distance) (Scalar 7) []) (Scalar 3)))"

text \<open>
  \<open>ex_raise\<close>: \<^verbatim>\<open>add_data((1, 1)); add_centroid((0, 0)); start(); add_centroid((0,))\<close>.
\<close>

definition ex_raise :: "(int, int) kmeans" where
  "ex_raise =
     add_centroid
       (fst (start
          (add_centroid (add_data (KMeans_init euclidean_distance) (Tuple [1, 1]) [])
             (Tuple [0, 0]))))
       (Tuple [0])"

text \<open>\<open>ex_mean\<close>: \<^verbatim>\<open>add_data((1,), (2,)); add_centroid((5,)); start()\<close>.\<close>

definition ex_mean :: "(int, int) kmeans" where
  "ex_mean =
     fst (start
       (add_centroid (add_data (KMeans_init euclidean_distance) (Tuple [1]) [Tuple [2]])
          (Tuple [5])))"

text \<open>
  \<open>ex_cost\<close>: \<^verbatim>\<open>add_data((0,), (1,), (3,), (4,), (7,)); add_centroid((5,));
  add_centroid((2,)); start()\<close>.
\<close>

definition ex_cost :: "(int, int) kmeans" where
  "ex_cost =
     fst (start
       (add_centroid
          (add_centroid
             (add_data (KMeans_init euclidean_distance) (Tuple [0])
                [Tuple [1], Tuple [3], Tuple [4], Tuple [7]])
             (Tuple [5]))
          (Tuple [2])))"

text \<open>
  \<open>ex_far\<close>: the calls of \<open>ex_run\<close> on \<^verbatim>\<open>KMeans(dist)\<close> with a metric of the caller's,
  \<^verbatim>\<open>dist = lambda p, q: -euclidean_distance(p, q)\<close>, under which the nearest centroid
  is the farthest one.
\<close>

definition ex_far :: "(int, int) kmeans" where
  "ex_far =
     add_centroid
       (add_centroid
          (add_data
             (KMeans_init
                (\<lambda>p q. case euclidean_distance p q of Inl e \<Rightarrow> Inl e | Inr v \<Rightarrow> Inr (- v)))
             (Tuple [0]) [Tuple [1], Tuple [10]])
          (Tuple [0]))
       (Tuple [1])"

section \<open>The cost of a partition\<close>

text \<open>
  The quantity of the convergence property: the sum, over the clusters and over the
  members of each, of the squared distance from the member to the cluster's centroid.
  The source does not compute it; \<open>sq_dist\<close> is the value that \<open>euclidean_distance\<close>
  returns on two tuples of one length.
\<close>

definition sq_dist :: "('a::{linordered_idom, divide}) list \<Rightarrow> 'a list \<Rightarrow> 'a" where
  "sq_dist p c = sum_list (map (\<lambda>(x, y). (x - y) ^ 2) (zip p c))"

definition total_cost :: "('a::{linordered_idom, divide}, 'v) kmeans \<Rightarrow> 'a" where
  "total_cost s =
     sum_list (map (\<lambda>(c, d). sum_list (map (\<lambda>p. sq_dist p c) d)) (zip (kctr s) (kmem s)))"

section \<open>Reachable engine states\<close>

text \<open>
  The states an engine passes through under the public operations, from
  \<^verbatim>\<open>KMeans(dist)\<close> on. An operation that raises leaves the object in use, in the state at
  the raise. \<^verbatim>\<open>find_cluster\<close> and \<^verbatim>\<open>get_clusters\<close> change nothing.
\<close>

inductive reachable ::
  "('a::{linordered_idom, divide}, 'v::linorder) kmeans \<Rightarrow> bool" where
  r_init: "reachable (KMeans_init d)"
| r_clear: "reachable s \<Longrightarrow> reachable (clear s)"
| r_reset_clusters: "reachable s \<Longrightarrow> reachable (reset_clusters s)"
| r_reset_centroids: "reachable s \<Longrightarrow> reachable (reset_centroids s)"
| r_add_centroid: "reachable s \<Longrightarrow> reachable (add_centroid s pt)"
| r_add_data: "reachable s \<Longrightarrow> reachable (add_data s pt pts)"
| r_random_centroids:
    "reachable s \<Longrightarrow> random_centroids s k rs = Some (s', r) \<Longrightarrow> reachable s'"
| r_start: "reachable s \<Longrightarrow> start s = (s', r) \<Longrightarrow> reachable s'"
| r_step: "reachable s \<Longrightarrow> step s = (s', r') \<Longrightarrow> reachable s'"
| r_run: "reachable s \<Longrightarrow> run s maxi = Some (s', r, n) \<Longrightarrow> reachable s'"

text \<open>
  A partitioned state, as \<^verbatim>\<open>start()\<close> leaves it when it returns: every
  membership set is a set (its list has no duplicates) and every member of the set at
  offset \<open>j\<close> has the centroid at offset \<open>j\<close> as the nearest one.
\<close>

definition partitioned :: "('a, 'v::linorder) kmeans \<Rightarrow> bool" where
  "partitioned s \<longleftrightarrow>
     list_all distinct (kmem s) \<and>
     list_all (\<lambda>(j, d). list_all (\<lambda>p. nearest s (Tuple p) = Inr j) d) (enumerate 0 (kmem s))"

text \<open>
  What the second loop of \<^verbatim>\<open>step\<close> keeps while it moves points: every membership set
  is a set, and those beyond the end of the centroid list are empty.
\<close>

definition sets_ok :: "('a, 'v) kmeans \<Rightarrow> bool" where
  "sets_ok s \<longleftrightarrow>
     list_all distinct (kmem s) \<and> list_all (\<lambda>d. d = []) (drop (length (kctr s)) (kmem s))"

text \<open>
  \<open>ex_cost_exact\<close>: the calls of \<open>ex_cost\<close> on fractions (\<^verbatim>\<open>Fraction(0)\<close>, ...), before
  \<^verbatim>\<open>start()\<close>.
\<close>

definition ex_cost_exact :: "(rat, rat) kmeans" where
  "ex_cost_exact =
     add_centroid
       (add_centroid
          (add_data (KMeans_init euclidean_distance) (Tuple [0])
             [Tuple [1], Tuple [3], Tuple [4], Tuple [7]])
          (Tuple [5]))
       (Tuple [2])"

section \<open>argmin\<close>

lemma argmin_loop_bound:
  "argmin_loop fn C pos mv mp = Inr r \<Longrightarrow> mp \<le> pos \<Longrightarrow> r \<le> pos + length C"
proof (induction C arbitrary: pos mv mp)
  case Nil
  then show ?case by simp
next
  case (Cons val rest)
  then show ?case
    by (fastforce split: sum.splits if_splits)
qed

lemma argmin_bound: "argmin fn C = Inr r \<Longrightarrow> r < length C"
  by (auto simp: argmin_def split: list.splits sum.splits dest!: argmin_loop_bound)

lemma nearest_bound: "nearest s pt = Inr ploc \<Longrightarrow> ploc < length (kctr s)"
  by (simp add: nearest_def argmin_bound)

section \<open>The loop of run\<close>

lemma ex_run_state:
  "ex_run =
     \<lparr>dist_fn = euclidean_distance, kctr = [[0], [1]], kmem = [[], []],
      data = [[0], [1], [10]]\<rparr>"
  by (simp add: ex_run_def KMeans_init_def add_data_def add_centroid_def set_add_def
      as_tuple_def)

lemma ex_run_start: "start ex_run = (ex_run\<lparr>kmem := [[[0]], [[1], [10]]]\<rparr>, Inr ())"
  by (simp add: ex_run_state start_def reset_clusters_def nearest_def argmin_def
      euclidean_distance_def set_add_def)

lemma ex_run_step1:
  "step (ex_run\<lparr>kmem := [[[0]], [[1], [10]]]\<rparr>) =
     (ex_run\<lparr>kctr := [[0], [5]], kmem := [[[0], [1]], [[10]]]\<rparr>, Inr 1)"
  by (simp add: ex_run_state step_def centroid_def upt_rec nearest_def argmin_def
      euclidean_distance_def set_add_def set_discard_def)

lemma ex_run_step2:
  "step (ex_run\<lparr>kctr := [[0], [5]], kmem := [[[0], [1]], [[10]]]\<rparr>) =
     (ex_run\<lparr>kctr := [[0], [10]], kmem := [[[0], [1]], [[10]]]\<rparr>, Inr 0)"
  by (simp add: ex_run_state step_def centroid_def upt_rec nearest_def argmin_def
      euclidean_distance_def set_add_def set_discard_def)

text \<open>With \<^verbatim>\<open>max == 0\<close> the loop calls \<^verbatim>\<open>step\<close> once and then leaves.\<close>

lemma run_loop_zero:
  "run_loop s (Some 0) n =
     Some (fst (step s), (case snd (step s) of Inl e \<Rightarrow> Inl e | Inr _ \<Rightarrow> Inr ()), n + 1)"
  by (subst run_loop.simps) (simp split: prod.splits sum.splits)

lemma run_zero_one_step:
  assumes "start s = (s0, Inr u)"
  shows "run s (Some 0) =
     Some (fst (step s0), (case snd (step s0) of Inl e \<Rightarrow> Inl e | Inr _ \<Rightarrow> Inr ()), 1)"
  using assms by (simp add: run_def run_loop_zero)

text \<open>
  With \<^verbatim>\<open>max >= 0\<close> the loop returns, after at least one and at most \<^verbatim>\<open>max + 1\<close> calls
  of \<^verbatim>\<open>step\<close>.
\<close>

lemma run_loop_bound:
  "0 \<le> m \<Longrightarrow>
     \<exists>s' r n. run_loop s (Some m) c = Some (s', r, n) \<and> c < n \<and> n \<le> c + nat m + 1"
proof (induction "nat m" arbitrary: m s c)
  case 0
  then have "m = 0" by simp
  then show ?case by (simp add: run_loop_zero)
next
  case (Suc k)
  then have m: "0 < m" "k = nat (m - 1)" "0 \<le> m - 1" by simp_all
  obtain s1 r1 where st: "step s = (s1, r1)" by (cases "step s")
  show ?case
  proof (cases r1)
    case (Inl e)
    with st show ?thesis by (subst run_loop.simps) simp
  next
    case (Inr moves)
    show ?thesis
    proof (cases "moves = 0")
      case True
      with st Inr show ?thesis by (subst run_loop.simps) simp
    next
      case False
      from Suc.hyps(1) [OF m(2) m(3), of s1 "c + 1"]
      obtain s' r n where
        "run_loop s1 (Some (m - 1)) (c + 1) = Some (s', r, n)" "c + 1 < n"
        "n \<le> c + 1 + nat (m - 1) + 1"
        by blast
      note ih = this
      have "run_loop s (Some m) c = run_loop s1 (Some (m - 1)) (c + 1)"
        using st Inr False m by (subst run_loop.simps) simp
      with ih have "run_loop s (Some m) c = Some (s', r, n)" "c < n" "n \<le> c + nat m + 1"
        using m by simp_all
      then show ?thesis by blast
    qed
  qed
qed

lemma run_bound:
  assumes "start s = (s0, Inr u)" and "0 \<le> m"
  shows "\<exists>s' r n. run s (Some m) = Some (s', r, n) \<and> 1 \<le> n \<and> n \<le> nat m + 1"
  using run_loop_bound [OF assms(2), of s0 0] assms(1) by (auto simp: run_def)

text \<open>
  Claim C1 (it fails on the code): \<^verbatim>\<open>run(0)\<close> on \<open>ex_run\<close>. \<^verbatim>\<open>start()\<close> succeeds and
  leaves the clusters \<open>{(0,)}\<close> and \<open>{(1,), (10,)}\<close>; \<^verbatim>\<open>run(0)\<close> then makes one call of
  \<^verbatim>\<open>step()\<close>, not zero: it returns with the centroids recomputed and \<open>(1,)\<close> moved,
  a state that \<^verbatim>\<open>start()\<close> alone does not leave.
\<close>

theorem run_zero_calls_step_once:
  "start ex_run = (ex_run\<lparr>kmem := [[[0]], [[1], [10]]]\<rparr>, Inr ()) \<and>
   run ex_run (Some 0) =
     Some (ex_run\<lparr>kctr := [[0], [5]], kmem := [[[0], [1]], [[10]]]\<rparr>, Inr (), 1)"
  by (simp add: ex_run_start run_def run_loop_zero ex_run_step1)

text \<open>
  Claim C2 (it fails on the code): \<^verbatim>\<open>run(1)\<close> on \<open>ex_run\<close> makes two calls of
  \<^verbatim>\<open>step()\<close>, one more than \<^verbatim>\<open>max\<close>: the first moves a point, the second is made
  before \<^verbatim>\<open>max == 0\<close> is looked at.
\<close>

theorem run_one_calls_step_twice:
  "run ex_run (Some 1) =
     Some (ex_run\<lparr>kctr := [[0], [10]], kmem := [[[0], [1]], [[10]]]\<rparr>, Inr (), 2)"
proof -
  have "run ex_run (Some 1) = run_loop (ex_run\<lparr>kmem := [[[0]], [[1], [10]]]\<rparr>) (Some 1) 0"
    by (simp add: run_def ex_run_start)
  also have "\<dots> = run_loop (ex_run\<lparr>kctr := [[0], [5]], kmem := [[[0], [1]], [[10]]]\<rparr>) (Some 0) 1"
    by (subst run_loop.simps) (simp add: ex_run_step1)
  also have "\<dots> =
      Some (ex_run\<lparr>kctr := [[0], [10]], kmem := [[[0], [1]], [[10]]]\<rparr>, Inr (), 2)"
    by (simp add: run_loop_zero ex_run_step2)
  finally show ?thesis .
qed

section \<open>add_centroid and the check for a known centroid\<close>

text \<open>
  \<^verbatim>\<open>pt not in self._kctr\<close> compares the argument as it was passed with the stored
  tuples: a tuple is found when it is stored, a scalar never is.
\<close>

lemma add_centroid_tuple_known:
  "xs \<in> set (kctr s) \<Longrightarrow> add_centroid s (Tuple xs) = s"
  by (simp add: add_centroid_def)

lemma add_centroid_tuple_new:
  "xs \<notin> set (kctr s) \<Longrightarrow>
     add_centroid s (Tuple xs) = s\<lparr>kctr := kctr s @ [xs], kmem := kmem s @ [[]]\<rparr>"
  by (auto simp: add_centroid_def as_tuple_def)

lemma add_centroid_scalar:
  "add_centroid s (Scalar x) = s\<lparr>kctr := kctr s @ [[x]], kmem := kmem s @ [[]]\<rparr>"
  by (auto simp: add_centroid_def as_tuple_def)

text \<open>
  Claim C4 (it fails on the code): after \<^verbatim>\<open>add_centroid(5)\<close> the centroid list is
  \<open>[(5,)]\<close>, the normalised form \<open>(5,)\<close> of the scalar \<open>5\<close> is a centroid, and a second
  \<^verbatim>\<open>add_centroid(5)\<close> still appends \<open>(5,)\<close> and another empty membership set.
\<close>

theorem add_centroid_scalar_twice:
  "as_tuple (Scalar 5) \<in> set (kctr ex_dup) \<and>
   kctr (add_centroid ex_dup (Scalar 5)) = [[5], [5]] \<and>
   kmem (add_centroid ex_dup (Scalar 5)) = [[], []]"
  by (simp add: ex_dup_def add_centroid_scalar KMeans_init_def as_tuple_def)

section \<open>reset_centroids and the membership list\<close>

lemma ex_stale_state:
  "ex_stale =
     \<lparr>dist_fn = euclidean_distance, kctr = [[10]], kmem = [[[0]], [[10]], []],
      data = [[0], [10]]\<rparr>"
  by (simp add: ex_stale_def KMeans_init_def add_data_def add_centroid_def set_add_def
      as_tuple_def start_def reset_clusters_def nearest_def argmin_def
      euclidean_distance_def reset_centroids_def)

text \<open>
  Claim C5 (it fails on the code): \<^verbatim>\<open>reset_centroids\<close> empties \<^verbatim>\<open>_kctr\<close> and leaves
  \<^verbatim>\<open>_kmem\<close> as it is. In \<open>ex_stale\<close> the centroid list has one entry and the membership
  list three, and \<^verbatim>\<open>get_clusters()\<close> reports the point \<open>(0,)\<close>, left over from the
  centroid \<open>(0,)\<close> that was discarded, as the cluster of the centroid \<open>(10,)\<close>.
\<close>

theorem reset_centroids_leaves_membership:
  "length (kctr ex_stale) = 1 \<and> length (kmem ex_stale) = 3 \<and>
   get_clusters ex_stale = Inr [([10], [[0]])]"
  by (simp add: ex_stale_state get_clusters_def)

section \<open>find_cluster on a bare scalar\<close>

lemma find_member_scalar: "find_member (Scalar x) ds pos = None"
  by (induction ds arbitrary: pos) auto

lemma find_member_tuple:
  "j < length ds \<Longrightarrow> p \<in> set (ds ! j) \<Longrightarrow>
     \<exists>r \<le> j. find_member (Tuple p) ds pos = Some (pos + r) \<and> p \<in> set (ds ! r)"
proof (induction ds arbitrary: pos j)
  case Nil
  then show ?case by simp
next
  case (Cons d ds)
  show ?case
  proof (cases "p \<in> set d")
    case True
    then show ?thesis by (intro exI [of _ 0]) auto
  next
    case False
    with Cons.prems obtain j' where j': "j = Suc j'" "j' < length ds" "p \<in> set (ds ! j')"
      by (cases j) auto
    from Cons.IH [OF j'(2,3), of "pos + 1"] obtain r where
      "r \<le> j'" "find_member (Tuple p) ds (pos + 1) = Some (pos + 1 + r)" "p \<in> set (ds ! r)"
      by blast
    with False j' show ?thesis by (intro exI [of _ "Suc r"]) auto
  qed
qed

lemma nearest_scalar_default:
  "dist_fn s = euclidean_distance \<Longrightarrow>
     nearest s (Scalar x) = Inl (if kctr s = [] then EmptySequence else TypeError)"
  by (simp add: nearest_def argmin_def euclidean_distance_def split: list.splits)

lemma ex_scalar_state:
  "ex_scalar = \<lparr>dist_fn = euclidean_distance, kctr = [[3]], kmem = [[[7]]], data = [[7]]\<rparr>"
  by (simp add: ex_scalar_def KMeans_init_def add_data_def add_centroid_def set_add_def
      as_tuple_def start_def reset_clusters_def nearest_def argmin_def
      euclidean_distance_def)

text \<open>
  Claim C10: let the point \<open>(x,)\<close>, stored for the scalar \<open>x\<close>, be a member of cluster
  \<open>i\<close>, under the default metric. Then \<^verbatim>\<open>find_cluster(x)\<close> finds no membership match,
  goes on to the distance computation and raises: \<^verbatim>\<open>TypeError\<close> from \<^verbatim>\<open>len(x)\<close> in
  \<^verbatim>\<open>euclidean_distance\<close> (the \<^verbatim>\<open>ValueError\<close> of \<^verbatim>\<open>argmin\<close> when the centroid list
  has been emptied). \<^verbatim>\<open>find_cluster((x,))\<close> with the stored tuple does find the point,
  in the first cluster \<open>j\<close> that holds it, and returns that cluster's centroid.
\<close>

theorem find_cluster_scalar_fails:
  assumes "dist_fn s = euclidean_distance"
    and "i < length (kmem s)" and "[x] \<in> set (kmem s ! i)"
  shows "find_member (Scalar x) (kmem s) 0 = None \<and>
     find_cluster s (Scalar x) = Inl (if kctr s = [] then EmptySequence else TypeError) \<and>
     (\<exists>j \<le> i. [x] \<in> set (kmem s ! j) \<and>
        find_cluster s (Tuple [x]) =
          (if j < length (kctr s) then Inr (kctr s ! j) else Inl IndexError))"
proof -
  from find_member_tuple [OF assms(2,3), of 0] obtain j where
    j: "j \<le> i" "find_member (Tuple [x]) (kmem s) 0 = Some j" "[x] \<in> set (kmem s ! j)"
    by auto
  then have "find_cluster s (Tuple [x]) =
      (if j < length (kctr s) then Inr (kctr s ! j) else Inl IndexError)"
    by (simp add: find_cluster_def)
  with j show ?thesis
    by (auto simp: find_cluster_def find_member_scalar nearest_scalar_default [OF assms(1)])
qed

theorem find_cluster_scalar_fails_witness:
  "dist_fn ex_scalar = euclidean_distance \<and> 0 < length (kmem ex_scalar) \<and>
   [7] \<in> set (kmem ex_scalar ! 0) \<and>
   find_cluster ex_scalar (Scalar 7) = Inl TypeError \<and>
   find_cluster ex_scalar (Tuple [7]) = Inr [3]"
proof -
  have h: "dist_fn ex_scalar = euclidean_distance" "0 < length (kmem ex_scalar)"
    "[7] \<in> set (kmem ex_scalar ! 0)"
    by (simp_all add: ex_scalar_state)
  from find_cluster_scalar_fails [OF h] h show ?thesis
    by (simp add: ex_scalar_state)
qed

section \<open>What start and step leave unchanged\<close>

lemma assign_all_fields:
  "assign_all s pts = (s', r) \<Longrightarrow>
     kctr s' = kctr s \<and> data s' = data s \<and> dist_fn s' = dist_fn s \<and>
     length (kmem s') = length (kmem s)"
  by (induction pts arbitrary: s) (auto split: sum.splits if_splits)

lemma start_fields:
  "start s = (s', r) \<Longrightarrow>
     kctr s' = kctr s \<and> data s' = data s \<and> dist_fn s' = dist_fn s \<and>
     length (kmem s') = length (kmem s)"
  by (auto simp: start_def reset_clusters_def split: if_splits dest!: assign_all_fields)

lemma recompute_fields:
  "recompute s pos ds = (s', r) \<Longrightarrow>
     kmem s' = kmem s \<and> data s' = data s \<and> dist_fn s' = dist_fn s \<and>
     length (kctr s') = length (kctr s)"
  by (induction ds arbitrary: s pos) (auto split: if_splits)

lemma move_points_fields:
  "move_points s cloc pts m = (s', r) \<Longrightarrow>
     kctr s' = kctr s \<and> data s' = data s \<and> dist_fn s' = dist_fn s \<and>
     length (kmem s') = length (kmem s)"
  by (induction pts arbitrary: s m) (auto simp: Let_def split: sum.splits if_splits)

lemma reassign_fields:
  "reassign s cs m = (s', r) \<Longrightarrow>
     kctr s' = kctr s \<and> data s' = data s \<and> dist_fn s' = dist_fn s \<and>
     length (kmem s') = length (kmem s)"
proof (induction cs arbitrary: s m)
  case Nil
  then show ?case by simp
next
  case (Cons cloc rest)
  obtain s1 r1 where mp: "move_points s cloc (kmem s ! cloc) m = (s1, r1)"
    by (cases "move_points s cloc (kmem s ! cloc) m")
  note f1 = move_points_fields [OF mp]
  show ?case
  proof (cases r1)
    case (Inl e)
    with Cons.prems mp f1 show ?thesis by simp
  next
    case (Inr m1)
    with Cons.prems mp have "reassign s1 rest m1 = (s', r)" by simp
    from Cons.IH [OF this] f1 show ?thesis by simp
  qed
qed

lemma step_fields:
  "step s = (s', r) \<Longrightarrow>
     data s' = data s \<and> dist_fn s' = dist_fn s \<and>
     length (kctr s') = length (kctr s) \<and> length (kmem s') = length (kmem s)"
proof -
  assume st: "step s = (s', r)"
  obtain s1 r1 where rc: "recompute s 0 (kmem s) = (s1, r1)"
    by (cases "recompute s 0 (kmem s)")
  note f1 = recompute_fields [OF rc]
  show ?thesis
  proof (cases r1)
    case (Inl e)
    with st rc f1 show ?thesis by (simp add: step_def)
  next
    case (Inr u)
    with st rc have "reassign s1 [0..<length (kmem s1)] 0 = (s', r)"
      by (simp add: step_def)
    from reassign_fields [OF this] f1 show ?thesis by simp
  qed
qed

section \<open>Errors and the state they leave\<close>

lemma ex_raise_state:
  "ex_raise =
     \<lparr>dist_fn = euclidean_distance, kctr = [[0, 0], [0]], kmem = [[[1, 1]], []],
      data = [[1, 1]]\<rparr>"
  by (simp add: ex_raise_def KMeans_init_def add_data_def add_centroid_def set_add_def
      as_tuple_def start_def reset_clusters_def nearest_def argmin_def
      euclidean_distance_def)

lemma ex_raise_start:
  "start ex_raise = (ex_raise\<lparr>kmem := [[], []]\<rparr>, Inl DimensionMismatch)"
  by (simp add: ex_raise_state start_def reset_clusters_def nearest_def argmin_def
      euclidean_distance_def)

lemma ex_raise_step:
  "step ex_raise = (ex_raise\<lparr>kctr := [[1, 1], [0]]\<rparr>, Inl DimensionMismatch)"
  by (simp add: ex_raise_state step_def centroid_def upt_rec nearest_def argmin_def
      euclidean_distance_def)

text \<open>
  Claim C3 fails as stated. In \<open>ex_raise\<close> the second centroid has one component and
  the sample point two. \<^verbatim>\<open>start()\<close> raises the mismatch after \<^verbatim>\<open>reset_clusters()\<close>
  has emptied the membership sets, and \<^verbatim>\<open>step()\<close> raises it after the first centroid has
  been recomputed.
\<close>

theorem start_raises_after_reset:
  "snd (start ex_raise) = Inl DimensionMismatch \<and>
   kmem ex_raise = [[[1, 1]], []] \<and> kmem (fst (start ex_raise)) = [[], []] \<and>
   snd (step ex_raise) = Inl DimensionMismatch \<and>
   kctr ex_raise = [[0, 0], [0]] \<and> kctr (fst (step ex_raise)) = [[1, 1], [0]]"
  by (simp add: ex_raise_start ex_raise_step) (simp add: ex_raise_state)

lemma argmin_loop_error:
  "argmin_loop fn C pos mv mp = Inl e \<Longrightarrow> \<exists>c \<in> set C. fn c = Inl e"
  by (induction C arbitrary: pos mv mp) (auto split: sum.splits if_splits)

lemma argmin_error:
  "argmin fn C = Inl e \<Longrightarrow> (C = [] \<and> e = EmptySequence) \<or> (\<exists>c \<in> set C. fn c = Inl e)"
  by (auto simp: argmin_def split: list.splits sum.splits dest: argmin_loop_error)

lemma euclidean_distance_error:
  "euclidean_distance (Tuple p) (Tuple c) = Inl e \<Longrightarrow> e = DimensionMismatch"
  by (simp add: euclidean_distance_def split: if_splits)

section \<open>start leaves a partition of the sample set\<close>

lemma set_set_add: "set (set_add x xs) = insert x (set xs)"
  by (auto simp: set_add_def)

lemma set_set_discard: "set (set_discard x xs) = set xs - {x}"
  by (simp add: set_discard_def)

lemma nearest_cong:
  "kctr s' = kctr s \<Longrightarrow> dist_fn s' = dist_fn s \<Longrightarrow> nearest s' pt = nearest s pt"
  by (simp add: nearest_def)

lemma members_conv: "q \<in> (\<Union>d \<in> set xs. set d) \<longleftrightarrow> (\<exists>j < length xs. q \<in> set (xs ! j))"
  by (metis UN_iff in_set_conv_nth)

lemma in_members_update:
  assumes "i < length xs"
  shows "(\<exists>j < length xs. q \<in> set ((xs[i := ys]) ! j)) \<longleftrightarrow>
     (q \<in> set ys \<or> (\<exists>j < length xs. j \<noteq> i \<and> q \<in> set (xs ! j)))"
  using assms by (auto simp: nth_list_update split: if_splits)

lemma in_members_add:
  assumes "i < length xs"
  shows "(\<exists>j < length xs. q \<in> set ((xs[i := set_add p (xs ! i)]) ! j)) \<longleftrightarrow>
     (q = p \<or> (\<exists>j < length xs. q \<in> set (xs ! j)))"
  unfolding in_members_update [OF assms] set_set_add using assms by auto

lemma assign_all_members:
  "assign_all s pts = (s', Inr u) \<Longrightarrow>
     (\<exists>j < length (kmem s'). q \<in> set (kmem s' ! j)) \<longleftrightarrow>
     (q \<in> set pts \<or> (\<exists>j < length (kmem s). q \<in> set (kmem s ! j)))"
proof (induction pts arbitrary: s)
  case Nil
  then show ?case by simp
next
  case (Cons pt pts)
  from Cons.prems obtain ploc where ploc: "nearest s (Tuple pt) = Inr ploc"
    by (cases "nearest s (Tuple pt)") auto
  with Cons.prems have lt: "ploc < length (kmem s)"
    by (simp split: if_splits)
  let ?s1 = "s\<lparr>kmem := (kmem s)[ploc := set_add pt (kmem s ! ploc)]\<rparr>"
  from Cons.prems ploc lt have "assign_all ?s1 pts = (s', Inr u)" by simp
  from Cons.IH [OF this]
  have "(\<exists>j < length (kmem s'). q \<in> set (kmem s' ! j)) \<longleftrightarrow>
      (q \<in> set pts \<or> (\<exists>j < length (kmem ?s1). q \<in> set (kmem ?s1 ! j)))" .
  moreover have "(\<exists>j < length (kmem ?s1). q \<in> set (kmem ?s1 ! j)) \<longleftrightarrow>
      (q = pt \<or> (\<exists>j < length (kmem s). q \<in> set (kmem s ! j)))"
    using in_members_add [OF lt, of q pt] by simp
  ultimately show ?case by (simp only: set_simps insert_iff) blast
qed

lemma assign_all_nearest:
  "assign_all s pts = (s', Inr u) \<Longrightarrow> j < length (kmem s') \<Longrightarrow> q \<in> set (kmem s' ! j) \<Longrightarrow>
     nearest s (Tuple q) = Inr j \<or> q \<in> set (kmem s ! j)"
proof (induction pts arbitrary: s)
  case Nil
  then show ?case by simp
next
  case (Cons pt pts)
  from Cons.prems(1) obtain ploc where ploc: "nearest s (Tuple pt) = Inr ploc"
    by (cases "nearest s (Tuple pt)") auto
  with Cons.prems(1) have lt: "ploc < length (kmem s)"
    by (simp split: if_splits)
  let ?s1 = "s\<lparr>kmem := (kmem s)[ploc := set_add pt (kmem s ! ploc)]\<rparr>"
  from Cons.prems(1) ploc lt have a: "assign_all ?s1 pts = (s', Inr u)" by simp
  have n: "nearest ?s1 (Tuple q) = nearest s (Tuple q)"
    by (rule nearest_cong) simp_all
  have m: "kmem ?s1 ! j = (if j = ploc then set_add pt (kmem s ! ploc) else kmem s ! j)"
    using lt by simp
  from Cons.IH [OF a Cons.prems(2,3)]
  have "nearest ?s1 (Tuple q) = Inr j \<or> q \<in> set (kmem ?s1 ! j)" .
  then have "nearest s (Tuple q) = Inr j \<or>
      q \<in> set (if j = ploc then set_add pt (kmem s ! ploc) else kmem s ! j)"
    unfolding n m .
  then show ?case
  proof
    assume "nearest s (Tuple q) = Inr j"
    then show ?thesis by simp
  next
    assume q: "q \<in> set (if j = ploc then set_add pt (kmem s ! ploc) else kmem s ! j)"
    show ?thesis
    proof (cases "j = ploc \<and> q = pt")
      case True
      with ploc show ?thesis by simp
    next
      case False
      with q have "q \<in> set (kmem s ! j)"
        by (auto simp: set_set_add split: if_splits)
      then show ?thesis by simp
    qed
  qed
qed

lemma start_returns:
  assumes "start s = (s', Inr u)"
  shows "data s' = data s" and "kctr s' = kctr s"
    and "(\<Union>d \<in> set (kmem s'). set d) = set (data s)"
    and "\<And>j q. j < length (kmem s') \<Longrightarrow> q \<in> set (kmem s' ! j) \<Longrightarrow> nearest s (Tuple q) = Inr j"
proof -
  from assms have a: "assign_all (reset_clusters s) (data s) = (s', Inr u)"
    by (simp add: start_def split: if_splits)
  from start_fields [OF assms] show "data s' = data s" and "kctr s' = kctr s" by simp_all
  have e: "kmem (reset_clusters s) ! j = []" if "j < length (kmem s)" for j
    using that by (simp add: reset_clusters_def)
  have "(\<exists>j < length (kmem s'). q \<in> set (kmem s' ! j)) \<longleftrightarrow> q \<in> set (data s)" for q
    unfolding assign_all_members [OF a] by (simp add: reset_clusters_def cong: conj_cong)
  then show "(\<Union>d \<in> set (kmem s'). set d) = set (data s)"
    by (intro set_eqI) (simp only: members_conv)
  fix j q
  assume j: "j < length (kmem s')" and q: "q \<in> set (kmem s' ! j)"
  have j': "j < length (kmem s)"
    using j start_fields [OF assms] by simp
  have "nearest (reset_clusters s) (Tuple q) = nearest s (Tuple q)"
    by (rule nearest_cong) (simp_all add: reset_clusters_def)
  with assign_all_nearest [OF a j q] e [OF j'] show "nearest s (Tuple q) = Inr j"
    by simp
qed

lemma start_disjoint:
  assumes "start s = (s', Inr u)" and "i < length (kmem s')" and "j < length (kmem s')"
    and "i \<noteq> j"
  shows "set (kmem s' ! i) \<inter> set (kmem s' ! j) = {}"
proof -
  have False if "q \<in> set (kmem s' ! i)" "q \<in> set (kmem s' ! j)" for q
    using start_returns(4) [OF assms(1,2) that(1)] start_returns(4) [OF assms(1,3) that(2)]
      assms(4) by simp
  then show ?thesis by blast
qed

lemma argmin_loop_total:
  "\<forall>c \<in> set C. \<exists>v. fn c = Inr v \<Longrightarrow> \<exists>r. argmin_loop fn C pos mv mp = Inr r"
  by (induction C arbitrary: pos mv mp) auto

lemma argmin_total:
  "C \<noteq> [] \<Longrightarrow> \<forall>c \<in> set C. \<exists>v. fn c = Inr v \<Longrightarrow> \<exists>r. argmin fn C = Inr r"
  using argmin_loop_total [of _ fn] by (cases C) (auto simp: argmin_def)

lemma nearest_total:
  assumes "dist_fn s = euclidean_distance" and "kctr s \<noteq> []"
    and "\<forall>c \<in> set (kctr s). length c = length p"
  shows "\<exists>r. nearest s (Tuple p) = Inr r"
  unfolding nearest_def
  by (rule argmin_total [OF assms(2)]) (use assms(1,3) in \<open>simp add: euclidean_distance_def\<close>)

lemma assign_all_total:
  assumes "dist_fn s = euclidean_distance" and "kctr s \<noteq> []"
    and "\<forall>c \<in> set (kctr s). length c = n" and "\<forall>p \<in> set pts. length p = n"
    and "length (kctr s) \<le> length (kmem s)"
  shows "\<exists>s'. assign_all s pts = (s', Inr ())"
  using assms
proof (induction pts arbitrary: s)
  case Nil
  then show ?case by simp
next
  case (Cons pt pts)
  from nearest_total [OF Cons.prems(1,2), of pt] Cons.prems(3,4)
  obtain ploc where ploc: "nearest s (Tuple pt) = Inr ploc" by auto
  from nearest_bound [OF ploc] Cons.prems(5) have lt: "ploc < length (kmem s)" by simp
  let ?s1 = "s\<lparr>kmem := (kmem s)[ploc := set_add pt (kmem s ! ploc)]\<rparr>"
  have "\<exists>s'. assign_all ?s1 pts = (s', Inr ())"
    by (rule Cons.IH) (use Cons.prems in simp_all)
  with ploc lt show ?case by simp
qed

section \<open>A step that moves nothing\<close>

lemma move_points_moves:
  "move_points s cloc pts m = (s', Inr m') \<Longrightarrow> m \<le> m' \<and> (m' = m \<longrightarrow> s' = s)"
proof (induction pts arbitrary: s m)
  case Nil
  then show ?case by simp
next
  case (Cons pt pts)
  from Cons.prems obtain ploc where ploc: "nearest s (Tuple pt) = Inr ploc"
    by (cases "nearest s (Tuple pt)") auto
  show ?case
  proof (cases "ploc = cloc")
    case True
    with Cons.prems ploc have "move_points s cloc pts m = (s', Inr m')" by simp
    from Cons.IH [OF this] show ?thesis .
  next
    case False
    let ?s1 = "s\<lparr>kmem := (kmem s)[cloc := set_discard pt (kmem s ! cloc)]\<rparr>"
    let ?s2 = "?s1\<lparr>kmem := (kmem ?s1)[ploc := set_add pt (kmem ?s1 ! ploc)]\<rparr>"
    from Cons.prems ploc False have "move_points ?s2 cloc pts (m + 1) = (s', Inr m')"
      by (simp add: Let_def split: if_splits)
    from Cons.IH [OF this] show ?thesis by simp
  qed
qed

lemma reassign_moves:
  "reassign s cs m = (s', Inr m') \<Longrightarrow> m \<le> m' \<and> (m' = m \<longrightarrow> s' = s)"
proof (induction cs arbitrary: s m)
  case Nil
  then show ?case by simp
next
  case (Cons cloc rest)
  obtain s1 r1 where mp: "move_points s cloc (kmem s ! cloc) m = (s1, r1)"
    by (cases "move_points s cloc (kmem s ! cloc) m")
  with Cons.prems obtain m1 where r1: "r1 = Inr m1"
    by (cases r1) auto
  with Cons.prems mp have re: "reassign s1 rest m1 = (s', Inr m')" by simp
  from move_points_moves [OF mp [unfolded r1]] Cons.IH [OF re] show ?case
    by auto
qed

lemma recompute_below:
  "recompute s pos ds = (s', r) \<Longrightarrow> i < pos \<Longrightarrow> kctr s' ! i = kctr s ! i"
  by (induction ds arbitrary: s pos) (auto split: if_splits)

lemma recompute_again:
  "recompute s pos ds = (s', Inr u) \<Longrightarrow> recompute s' pos ds = (s', Inr u)"
proof (induction ds arbitrary: s pos)
  case Nil
  then show ?case by simp
next
  case (Cons d ds)
  show ?case
  proof (cases "length d > 0")
    case False
    with Cons.prems have "recompute s (pos + 1) ds = (s', Inr u)" by simp
    from Cons.IH [OF this] False show ?thesis by simp
  next
    case True
    with Cons.prems have lt: "pos < length (kctr s)"
      by (simp split: if_splits)
    let ?s1 = "s\<lparr>kctr := (kctr s)[pos := centroid d]\<rparr>"
    from Cons.prems True lt have rc: "recompute ?s1 (pos + 1) ds = (s', Inr u)" by simp
    from recompute_below [OF rc, of pos] lt have at: "kctr s' ! pos = centroid d" by simp
    from recompute_fields [OF rc] lt have lt': "pos < length (kctr s')" by simp
    have "(kctr s')[pos := centroid d] = kctr s'"
      using at by (metis list_update_id)
    then have "s'\<lparr>kctr := (kctr s')[pos := centroid d]\<rparr> = s'" by simp
    with Cons.IH [OF rc] True lt' show ?thesis by simp
  qed
qed

text \<open>
  Claim C9: when \<^verbatim>\<open>step()\<close> returns 0, the \<^verbatim>\<open>step()\<close> that follows returns 0 as well and
  leaves the engine, its centroids and membership sets among the rest, as the first one
  left it. This holds in every state and for every metric.
\<close>

theorem step_fixed_point:
  assumes "step s = (s', Inr 0)"
  shows "step s' = (s', Inr 0)"
proof -
  obtain s1 r1 where rc: "recompute s 0 (kmem s) = (s1, r1)"
    by (cases "recompute s 0 (kmem s)")
  with assms obtain u where r1: "r1 = Inr u"
    by (cases r1) (auto simp: step_def)
  with assms rc have re: "reassign s1 [0..<length (kmem s1)] 0 = (s', Inr 0)"
    by (simp add: step_def)
  from reassign_moves [OF re] have eq: "s' = s1" by simp
  from recompute_fields [OF rc] have km: "kmem s1 = kmem s" by simp
  from recompute_again [OF rc [unfolded r1]] km
  have "recompute s1 0 (kmem s1) = (s1, Inr u)" by simp
  with re show ?thesis
    unfolding eq by (simp add: step_def)
qed

theorem step_fixed_point_witness:
  "step (ex_run\<lparr>kctr := [[0], [10]], kmem := [[[0], [1]], [[10]]]\<rparr>) =
     (ex_run\<lparr>kctr := [[0], [10]], kmem := [[[0], [1]], [[10]]]\<rparr>, Inr 0) \<and>
   step (ex_run\<lparr>kctr := [[0], [5]], kmem := [[[0], [1]], [[10]]]\<rparr>) =
     (ex_run\<lparr>kctr := [[0], [10]], kmem := [[[0], [1]], [[10]]]\<rparr>, Inr 0)"
  using step_fixed_point [OF ex_run_step2] ex_run_step2 by simp

section \<open>The recompute phase of step\<close>

lemma add_into_length: "length (add_into cur p) = length cur"
  by (induction cur p rule: add_into.induct) simp_all

lemma add_into_nth:
  "j < length cur \<Longrightarrow> add_into cur p ! j = cur ! j + (if j < length p then p ! j else 0)"
proof (induction cur p arbitrary: j rule: add_into.induct)
  case (1 cur)
  then show ?case by simp
next
  case (2 v p)
  then show ?case by simp
next
  case (3 c cur v p)
  then show ?case by (cases j) simp_all
qed

lemma fold_add_into_length: "length (fold (\<lambda>p cur. add_into cur p) pts cur) = length cur"
  by (induction pts arbitrary: cur) (simp_all add: add_into_length)

lemma fold_add_into_nth:
  "j < length cur \<Longrightarrow>
     fold (\<lambda>p cur. add_into cur p) pts cur ! j =
       cur ! j + (\<Sum>p\<leftarrow>pts. if j < length p then p ! j else 0)"
proof (induction pts arbitrary: cur)
  case Nil
  then show ?case by simp
next
  case (Cons p pts)
  have "j < length (add_into cur p)"
    using Cons.prems by (simp add: add_into_length)
  from Cons.IH [OF this] Cons.prems show ?case
    by (simp add: add_into_nth add.assoc)
qed

lemma fold_max_mono: "(a::nat) \<le> fold max ns a"
proof (induction ns arbitrary: a)
  case Nil
  then show ?case by simp
next
  case (Cons n ns)
  have "a \<le> max n a" by simp
  also have "\<dots> \<le> fold max ns (max n a)" by (rule Cons.IH)
  finally show ?case by simp
qed

lemma fold_max_ge: "n \<in> set ns \<Longrightarrow> (n::nat) \<le> fold max ns a"
proof (induction ns arbitrary: a)
  case Nil
  then show ?case by simp
next
  case (Cons k ns)
  show ?case
  proof (cases "n = k")
    case True
    have "n \<le> max k a" using True by simp
    also have "\<dots> \<le> fold max ns (max k a)" by (rule fold_max_mono)
    finally show ?thesis by simp
  next
    case False
    with Cons.prems have "n \<in> set ns" by simp
    from Cons.IH [OF this] show ?thesis by simp
  qed
qed

text \<open>
  The accumulator of \<^verbatim>\<open>centroid\<close> is as long as the longest member, so
  \<^verbatim>\<open>cur[pos] += v\<close> never leaves it.
\<close>

lemma centroid_length: "length (centroid pts) = fold max (map length pts) 0"
  by (simp add: centroid_def fold_add_into_length)

lemma centroid_covers: "p \<in> set pts \<Longrightarrow> length p \<le> length (centroid pts)"
  by (simp add: centroid_length fold_max_ge)

text \<open>
  Each component of \<^verbatim>\<open>centroid(pts)\<close> is the sum of that component over the members,
  a member too short counting 0, divided by the number of members with the division
  of the component type.
\<close>

lemma centroid_nth:
  assumes "j < length (centroid pts)"
  shows "centroid pts ! j =
     divide (\<Sum>p\<leftarrow>pts. if j < length p then p ! j else 0) (of_nat (length pts))"
proof -
  from assms have j: "j < fold max (map length pts) 0"
    by (simp add: centroid_length)
  then show ?thesis
    by (simp add: centroid_def fold_add_into_length fold_add_into_nth)
qed

text \<open>With exact division (\<open>rat\<close>, \<open>real\<close>) that is the arithmetic mean.\<close>

lemma centroid_mean_field:
  fixes pts :: "('a::linordered_field) list list"
  assumes "j < length (centroid pts)" and "pts \<noteq> []"
  shows "centroid pts ! j =
     (\<Sum>p\<leftarrow>pts. if j < length p then p ! j else 0) / of_nat (length pts)"
  using centroid_nth [OF assms(1)] by simp

text \<open>
  What the first loop of \<^verbatim>\<open>step\<close> leaves in \<^verbatim>\<open>_kctr\<close> when it does not raise: the
  \<^verbatim>\<open>centroid\<close> of the members at the offset of every cluster that has members, the old
  entry everywhere else.
\<close>

lemma recompute_result:
  "recompute s pos ds = (s', Inr u) \<Longrightarrow> i < length ds \<Longrightarrow>
     (if ds ! i \<noteq> [] then pos + i < length (kctr s) \<and> kctr s' ! (pos + i) = centroid (ds ! i)
      else kctr s' ! (pos + i) = kctr s ! (pos + i))"
proof (induction ds arbitrary: s pos i)
  case Nil
  then show ?case by simp
next
  case (Cons d ds)
  show ?case
  proof (cases "length d > 0")
    case False
    with Cons.prems(1) have rc: "recompute s (pos + 1) ds = (s', Inr u)" by simp
    show ?thesis
    proof (cases i)
      case 0
      with recompute_below [OF rc, of pos] False show ?thesis by simp
    next
      case (Suc i')
      with Cons.prems(2) have "i' < length ds" by simp
      from Cons.IH [OF rc this] Suc show ?thesis by (simp split: if_splits)
    qed
  next
    case True
    with Cons.prems(1) have lt: "pos < length (kctr s)"
      by (simp split: if_splits)
    let ?s1 = "s\<lparr>kctr := (kctr s)[pos := centroid d]\<rparr>"
    from Cons.prems(1) True lt have rc: "recompute ?s1 (pos + 1) ds = (s', Inr u)" by simp
    show ?thesis
    proof (cases i)
      case 0
      with recompute_below [OF rc, of pos] True lt show ?thesis by simp
    next
      case (Suc i')
      with Cons.prems(2) have "i' < length ds" by simp
      from Cons.IH [OF rc this] Suc show ?thesis by (simp split: if_splits)
    qed
  qed
qed

lemma recompute_beyond:
  "recompute s pos ds = (s', r) \<Longrightarrow> pos + length ds \<le> i \<Longrightarrow> kctr s' ! i = kctr s ! i"
  by (induction ds arbitrary: s pos) (auto split: if_splits)

lemma step_recomputes:
  assumes "step s = (s', Inr m)" and "i < length (kmem s)"
  shows "if kmem s ! i \<noteq> [] then i < length (kctr s) \<and> kctr s' ! i = centroid (kmem s ! i)
     else kctr s' ! i = kctr s ! i"
proof -
  obtain s1 r1 where rc: "recompute s 0 (kmem s) = (s1, r1)"
    by (cases "recompute s 0 (kmem s)")
  with assms(1) obtain u where r1: "r1 = Inr u"
    by (cases r1) (auto simp: step_def)
  with assms(1) rc have "reassign s1 [0..<length (kmem s1)] 0 = (s', Inr m)"
    by (simp add: step_def)
  from reassign_fields [OF this] have "kctr s' = kctr s1" by simp
  with recompute_result [OF rc [unfolded r1] assms(2)] show ?thesis
    by (simp split: if_splits)
qed

lemma ex_mean_state:
  "ex_mean = \<lparr>dist_fn = euclidean_distance, kctr = [[5]], kmem = [[[1], [2]]], data = [[1], [2]]\<rparr>"
  by (simp add: ex_mean_def KMeans_init_def add_data_def add_centroid_def set_add_def
      as_tuple_def start_def reset_clusters_def nearest_def argmin_def
      euclidean_distance_def)

text \<open>
  Claim C6 (it fails on the code): in \<open>ex_mean\<close> the one cluster holds \<open>(1,)\<close> and
  \<open>(2,)\<close>, whose mean is \<open>3/2\<close>. \<^verbatim>\<open>step()\<close> replaces the centroid by \<open>(1,)\<close>: on
  \<^verbatim>\<open>int\<close> components the \<^verbatim>\<open>/\<close> of Python 2 is floor division, and twice the new centroid
  is not the sum of the members. The same members as fractions give \<open>3/2\<close>.
\<close>

theorem step_centroid_floor:
  "kmem ex_mean = [[[1], [2]]] \<and>
   step ex_mean = (ex_mean\<lparr>kctr := [[1]]\<rparr>, Inr 0) \<and>
   centroid [[1], [2 :: int]] = [1] \<and> 2 * (1 :: int) \<noteq> 1 + 2 \<and>
   centroid [[1], [2 :: rat]] = [3 / 2]"
  by (simp add: ex_mean_state step_def centroid_def upt_rec nearest_def argmin_def
      euclidean_distance_def)

section \<open>The cost across steps\<close>

lemma euclidean_distance_tuples:
  "euclidean_distance (Tuple p) (Tuple c) =
     (if length p \<noteq> length c then Inl DimensionMismatch else Inr (sq_dist p c))"
  by (simp add: euclidean_distance_def sq_dist_def)

lemma ex_cost_state:
  "ex_cost =
     \<lparr>dist_fn = euclidean_distance, kctr = [[5], [2]],
      kmem = [[[4], [7]], [[0], [1], [3]]], data = [[0], [1], [3], [4], [7]]\<rparr>"
  by (simp add: ex_cost_def KMeans_init_def add_data_def add_centroid_def set_add_def
      as_tuple_def start_def reset_clusters_def nearest_def argmin_def
      euclidean_distance_def)

lemma ex_cost_step1:
  "step ex_cost = (ex_cost\<lparr>kctr := [[5], [1]], kmem := [[[4], [7], [3]], [[0], [1]]]\<rparr>, Inr 1)"
  by (simp add: ex_cost_state step_def centroid_def upt_rec nearest_def argmin_def
      euclidean_distance_def set_add_def set_discard_def)

lemma ex_cost_step2:
  "step (ex_cost\<lparr>kctr := [[5], [1]], kmem := [[[4], [7], [3]], [[0], [1]]]\<rparr>) =
     (ex_cost\<lparr>kctr := [[4], [0]], kmem := [[[4], [7], [3]], [[0], [1]]]\<rparr>, Inr 0)"
  by (simp add: ex_cost_state step_def centroid_def upt_rec nearest_def argmin_def
      euclidean_distance_def set_add_def set_discard_def)

text \<open>
  Claim C7 (it fails on the code): \<open>ex_cost\<close> is the partitioned state that \<^verbatim>\<open>start()\<close>
  leaves, of cost 11. The first \<^verbatim>\<open>step()\<close> moves \<open>(3,)\<close> and leaves a partitioned state of
  cost 10; the
  second moves nothing, replaces the centroids \<open>(5,)\<close> and \<open>(1,)\<close> by the floored means
  \<open>(4,)\<close> and \<open>(0,)\<close>, and leaves a partition of cost 11.
\<close>

theorem step_cost_increases:
  "partitioned ex_cost \<and> total_cost ex_cost = 11 \<and>
   step ex_cost =
     (ex_cost\<lparr>kctr := [[5], [1]], kmem := [[[4], [7], [3]], [[0], [1]]]\<rparr>, Inr 1) \<and>
   partitioned (ex_cost\<lparr>kctr := [[5], [1]], kmem := [[[4], [7], [3]], [[0], [1]]]\<rparr>) \<and>
   total_cost (ex_cost\<lparr>kctr := [[5], [1]], kmem := [[[4], [7], [3]], [[0], [1]]]\<rparr>) = 10 \<and>
   step (ex_cost\<lparr>kctr := [[5], [1]], kmem := [[[4], [7], [3]], [[0], [1]]]\<rparr>) =
     (ex_cost\<lparr>kctr := [[4], [0]], kmem := [[[4], [7], [3]], [[0], [1]]]\<rparr>, Inr 0) \<and>
   total_cost (ex_cost\<lparr>kctr := [[4], [0]], kmem := [[[4], [7], [3]], [[0], [1]]]\<rparr>) = 11"
  by (simp add: ex_cost_step1 ex_cost_step2)
     (simp add: ex_cost_state total_cost_def sq_dist_def partitioned_def nearest_def
        argmin_def euclidean_distance_def)

section \<open>Invariants of the reachable states\<close>

lemma run_loop_steps:
  assumes "\<And>s s' r. P s \<Longrightarrow> step s = (s', r) \<Longrightarrow> P s'"
    and "run_loop s maxi calls = Some y"
  shows "P s \<longrightarrow> P (fst y)"
proof (rule run_loop.raw_induct [where P = "\<lambda>s m c y. P s \<longrightarrow> P (fst y)"], goal_cases)
  case (1 f s maxi calls y)
  obtain s1 r1 where st: "step s = (s1, r1)" by (cases "step s")
  show ?case
  proof
    assume "P s"
    from assms(1) [OF this st] have p1: "P s1" .
    show "P (fst y)"
    proof (cases r1)
      case (Inl e)
      with "1"(2) st p1 show ?thesis by auto
    next
      case (Inr moves)
      show ?thesis
      proof (cases "moves \<noteq> 0 \<and> maxi \<noteq> Some 0")
        case False
        with "1"(2) st Inr p1 show ?thesis by (auto split: if_splits)
      next
        case True
        with "1"(2) st Inr
        have "f s1
            (case maxi of None \<Rightarrow> None | Some m \<Rightarrow> if m > 0 then Some (m - 1) else Some m)
            (calls + 1) = Some y"
          by simp
        from "1"(1) [OF this] p1 show ?thesis by simp
      qed
    qed
  qed
qed (rule assms(2))

lemma run_steps:
  assumes "\<And>s s' r. P s \<Longrightarrow> start s = (s', r) \<Longrightarrow> P s'"
    and "\<And>s s' r. P s \<Longrightarrow> step s = (s', r) \<Longrightarrow> P s'"
    and "run s maxi = Some (s', r, n)" and "P s"
  shows "P s'"
proof -
  obtain s0 r0 where st: "start s = (s0, r0)" by (cases "start s")
  from assms(1) [OF assms(4) st] have p0: "P s0" .
  show ?thesis
  proof (cases r0)
    case (Inl e)
    with assms(3) st p0 show ?thesis by (simp add: run_def)
  next
    case (Inr u)
    with assms(3) st have "run_loop s0 maxi 0 = Some (s', r, n)" by (simp add: run_def)
    from run_loop_steps [of P, OF assms(2) this] p0 show ?thesis by simp
  qed
qed

lemma add_data_lists: "kctr (add_data s pt pts) = kctr s \<and> kmem (add_data s pt pts) = kmem s"
proof -
  have "kctr (fold (\<lambda>elt t. t\<lparr>data := set_add (as_tuple elt) (data t)\<rparr>) xs t) = kctr t \<and>
      kmem (fold (\<lambda>elt t. t\<lparr>data := set_add (as_tuple elt) (data t)\<rparr>) xs t) = kmem t"
    for xs and t :: "('a, 'b) kmeans"
    by (induction xs arbitrary: t) simp_all
  then show ?thesis by (simp add: add_data_def)
qed

text \<open>
  In every reachable state the membership list is at least as long as the centroid
  list.
\<close>

lemma reachable_lengths: "reachable s \<Longrightarrow> length (kctr s) \<le> length (kmem s)"
proof (induction rule: reachable.induct)
  case (r_init d)
  then show ?case by (simp add: KMeans_init_def)
next
  case (r_clear s)
  then show ?case by (simp add: clear_def)
next
  case (r_reset_clusters s)
  then show ?case by (simp add: reset_clusters_def)
next
  case (r_reset_centroids s)
  then show ?case by (simp add: reset_centroids_def)
next
  case (r_add_centroid s pt)
  then show ?case by (simp add: add_centroid_def)
next
  case (r_add_data s pt pts)
  then show ?case by (simp add: add_data_lists)
next
  case (r_random_centroids s k rs s' r)
  then show ?case
    by (auto simp: random_centroids_def split: if_splits option.splits)
next
  case (r_start s s' r)
  with start_fields [OF r_start(2)] show ?case by simp
next
  case (r_step s s' r')
  with step_fields [OF r_step(2)] show ?case by simp
next
  case (r_run s maxi s' r n)
  show ?case
  proof (rule run_steps [where P = "\<lambda>s. length (kctr s) \<le> length (kmem s)", OF _ _ r_run(2)])
    fix t t' :: "('a, 'b) kmeans" and x
    assume "length (kctr t) \<le> length (kmem t)" "start t = (t', x)"
    with start_fields [of t t' x] show "length (kctr t') \<le> length (kmem t')" by simp
  next
    fix t t' :: "('a, 'b) kmeans" and x
    assume "length (kctr t) \<le> length (kmem t)" "step t = (t', x)"
    with step_fields [of t t' x] show "length (kctr t') \<le> length (kmem t')" by simp
  next
    show "length (kctr s) \<le> length (kmem s)" by (rule r_run(3))
  qed
qed

text \<open>
  Every public operation but \<^verbatim>\<open>reset_centroids\<close> keeps the two lists at one length.
\<close>

lemma parallel_preserved:
  assumes "length (kctr s) = length (kmem s)"
  shows "length (kctr (clear s)) = length (kmem (clear s))"
    and "length (kctr (reset_clusters s)) = length (kmem (reset_clusters s))"
    and "length (kctr (add_centroid s pt)) = length (kmem (add_centroid s pt))"
    and "length (kctr (add_data s pt pts)) = length (kmem (add_data s pt pts))"
    and "random_centroids s k rs = Some (s1, r1) \<Longrightarrow> length (kctr s1) = length (kmem s1)"
    and "start s = (s2, r2) \<Longrightarrow> length (kctr s2) = length (kmem s2)"
    and "step s = (s3, r3) \<Longrightarrow> length (kctr s3) = length (kmem s3)"
    and "run s maxi = Some (s4, r4, n) \<Longrightarrow> length (kctr s4) = length (kmem s4)"
proof -
  show "length (kctr (clear s)) = length (kmem (clear s))"
    by (simp add: clear_def)
  show "length (kctr (reset_clusters s)) = length (kmem (reset_clusters s))"
    using assms by (simp add: reset_clusters_def)
  show "length (kctr (add_centroid s pt)) = length (kmem (add_centroid s pt))"
    using assms by (simp add: add_centroid_def)
  show "length (kctr (add_data s pt pts)) = length (kmem (add_data s pt pts))"
    using assms by (simp add: add_data_lists)
  show "length (kctr s1) = length (kmem s1)" if "random_centroids s k rs = Some (s1, r1)"
    using that assms by (auto simp: random_centroids_def split: if_splits option.splits)
  show "length (kctr s2) = length (kmem s2)" if "start s = (s2, r2)"
    using start_fields [OF that] assms by simp
  show "length (kctr s3) = length (kmem s3)" if "step s = (s3, r3)"
    using step_fields [OF that] assms by simp
  show "length (kctr s4) = length (kmem s4)" if "run s maxi = Some (s4, r4, n)"
  proof (rule run_steps [where P = "\<lambda>s. length (kctr s) = length (kmem s)", OF _ _ that assms])
    fix t t' :: "('a, 'b) kmeans" and x
    assume "length (kctr t) = length (kmem t)" "start t = (t', x)"
    with start_fields [of t t' x] show "length (kctr t') = length (kmem t')" by simp
  next
    fix t t' :: "('a, 'b) kmeans" and x
    assume "length (kctr t) = length (kmem t)" "step t = (t', x)"
    with step_fields [of t t' x] show "length (kctr t') = length (kmem t')" by simp
  qed
qed

section \<open>argmin returns the offset of a least value\<close>

lemma argmin_loop_min:
  "argmin_loop fn C pos mv mp = Inr r \<Longrightarrow>
     \<exists>v. v \<le> mv \<and> (\<forall>i < length C. \<exists>w. fn (C ! i) = Inr w \<and> v \<le> w) \<and>
       ((r = mp \<and> v = mv) \<or> (\<exists>i < length C. r = pos + 1 + i \<and> fn (C ! i) = Inr v))"
proof (induction C arbitrary: pos mv mp)
  case Nil
  then show ?case by simp
next
  case (Cons val rest)
  from Cons.prems obtain cv where cv: "fn val = Inr cv"
    by (cases "fn val") auto
  show ?case
  proof (cases "cv < mv")
    case True
    with Cons.prems cv have "argmin_loop fn rest (pos + 1) cv (pos + 1) = Inr r" by simp
    from Cons.IH [OF this] obtain v where v: "v \<le> cv"
      "\<forall>i < length rest. \<exists>w. fn (rest ! i) = Inr w \<and> v \<le> w"
      "(r = pos + 1 \<and> v = cv) \<or> (\<exists>i < length rest. r = pos + 1 + 1 + i \<and> fn (rest ! i) = Inr v)"
      by blast
    have a: "v \<le> mv" using v(1) True by simp
    have b: "\<exists>w. fn ((val # rest) ! i) = Inr w \<and> v \<le> w" if "i < length (val # rest)" for i
      using that v(1,2) cv by (cases i) auto
    have c: "\<exists>i < length (val # rest). r = pos + 1 + i \<and> fn ((val # rest) ! i) = Inr v"
    proof (rule disjE [OF v(3)])
      assume "r = pos + 1 \<and> v = cv"
      with cv show ?thesis by (intro exI [of _ 0]) simp
    next
      assume "\<exists>i < length rest. r = pos + 1 + 1 + i \<and> fn (rest ! i) = Inr v"
      then obtain i where "i < length rest" "r = pos + 1 + 1 + i" "fn (rest ! i) = Inr v"
        by blast
      then show ?thesis by (intro exI [of _ "Suc i"]) simp
    qed
    from a b c show ?thesis by blast
  next
    case False
    with Cons.prems cv have "argmin_loop fn rest (pos + 1) mv mp = Inr r" by simp
    from Cons.IH [OF this] obtain v where v: "v \<le> mv"
      "\<forall>i < length rest. \<exists>w. fn (rest ! i) = Inr w \<and> v \<le> w"
      "(r = mp \<and> v = mv) \<or> (\<exists>i < length rest. r = pos + 1 + 1 + i \<and> fn (rest ! i) = Inr v)"
      by blast
    have b: "\<exists>w. fn ((val # rest) ! i) = Inr w \<and> v \<le> w" if "i < length (val # rest)" for i
      using that v(1,2) cv False by (cases i) auto
    have c: "(r = mp \<and> v = mv) \<or>
        (\<exists>i < length (val # rest). r = pos + 1 + i \<and> fn ((val # rest) ! i) = Inr v)"
    proof (rule disjE [OF v(3)])
      assume "r = mp \<and> v = mv"
      then show ?thesis by simp
    next
      assume "\<exists>i < length rest. r = pos + 1 + 1 + i \<and> fn (rest ! i) = Inr v"
      then obtain i where "i < length rest" "r = pos + 1 + 1 + i" "fn (rest ! i) = Inr v"
        by blast
      then have "\<exists>i < length (val # rest). r = pos + 1 + i \<and> fn ((val # rest) ! i) = Inr v"
        by (intro exI [of _ "Suc i"]) simp
      then show ?thesis by blast
    qed
    from v(1) b c show ?thesis by blast
  qed
qed

lemma argmin_min:
  assumes "argmin fn C = Inr r"
  shows "\<exists>v. fn (C ! r) = Inr v \<and> (\<forall>i < length C. \<exists>w. fn (C ! i) = Inr w \<and> v \<le> w)"
proof -
  from assms obtain x rest where C: "C = x # rest"
    by (cases C) (auto simp: argmin_def)
  with assms obtain mv where mv: "fn x = Inr mv"
    by (cases "fn x") (auto simp: argmin_def)
  with assms C have "argmin_loop fn rest 0 mv 0 = Inr r"
    by (simp add: argmin_def)
  from argmin_loop_min [OF this] obtain v where v: "v \<le> mv"
    "\<forall>i < length rest. \<exists>w. fn (rest ! i) = Inr w \<and> v \<le> w"
    "(r = 0 \<and> v = mv) \<or> (\<exists>i < length rest. r = 0 + 1 + i \<and> fn (rest ! i) = Inr v)"
    by blast
  have a: "fn (C ! r) = Inr v"
    using v(3) mv C by auto
  have b: "\<exists>w. fn (C ! i) = Inr w \<and> v \<le> w" if "i < length C" for i
    using that v(1,2) mv C by (cases i) auto
  from a b show ?thesis by blast
qed

text \<open>
  Under the default metric a point whose nearest centroid is found has the length of
  every centroid, and its squared distance to the centroid found is least.
\<close>

lemma nearest_default:
  assumes "dist_fn s = euclidean_distance" and "nearest s (Tuple p) = Inr j"
  shows "j < length (kctr s)"
    and "\<And>i. i < length (kctr s) \<Longrightarrow> length (kctr s ! i) = length p"
    and "\<And>i. i < length (kctr s) \<Longrightarrow> sq_dist p (kctr s ! j) \<le> sq_dist p (kctr s ! i)"
proof -
  show j: "j < length (kctr s)" by (rule nearest_bound [OF assms(2)])
  from argmin_min [OF assms(2) [unfolded nearest_def]] assms(1)
  obtain v where v: "euclidean_distance (Tuple p) (Tuple (kctr s ! j)) = Inr v"
    "\<forall>i < length (kctr s). \<exists>w. euclidean_distance (Tuple p) (Tuple (kctr s ! i)) = Inr w \<and> v \<le> w"
    by auto
  show len: "length (kctr s ! i) = length p" if "i < length (kctr s)" for i
    using v(2) that by (auto simp: euclidean_distance_tuples split: if_splits)
  show "sq_dist p (kctr s ! j) \<le> sq_dist p (kctr s ! i)" if "i < length (kctr s)" for i
    using v that len [OF that] len [OF j]
    by (auto simp: euclidean_distance_tuples split: if_splits)
qed
section \<open>The mean is the best centroid\<close>

lemma sum_list_shift:
  fixes xs :: "('a::linordered_field) list"
  shows "(\<Sum>x\<leftarrow>xs. (x - c)\<^sup>2) =
     (\<Sum>x\<leftarrow>xs. (x - m)\<^sup>2) + 2 * (m - c) * (sum_list xs - of_nat (length xs) * m) +
       of_nat (length xs) * (m - c)\<^sup>2"
  by (induction xs) (simp_all add: power2_eq_square algebra_simps)

lemma mean_least_squares:
  fixes xs :: "('a::linordered_field) list"
  assumes "xs \<noteq> []"
  shows "(\<Sum>x\<leftarrow>xs. (x - sum_list xs / of_nat (length xs))\<^sup>2) \<le> (\<Sum>x\<leftarrow>xs. (x - c)\<^sup>2)"
proof -
  let ?m = "sum_list xs / of_nat (length xs)"
  from assms have "of_nat (length xs) * ?m = sum_list xs" by simp
  then have "(\<Sum>x\<leftarrow>xs. (x - c)\<^sup>2) =
      (\<Sum>x\<leftarrow>xs. (x - ?m)\<^sup>2) + of_nat (length xs) * (?m - c)\<^sup>2"
    using sum_list_shift [of c xs ?m] by simp
  moreover have "0 \<le> of_nat (length xs) * (?m - c)\<^sup>2" by simp
  ultimately show ?thesis by simp
qed

lemma sq_dist_sum:
  "length p = n \<Longrightarrow> length c = n \<Longrightarrow> sq_dist p c = (\<Sum>k < n. (p ! k - c ! k)\<^sup>2)"
proof (induction p arbitrary: c n)
  case Nil
  then show ?case by (simp add: sq_dist_def)
next
  case (Cons x p)
  then obtain y c' n' where c: "c = y # c'" "n = Suc n'" "length c' = n'" "length p = n'"
    by (cases c) auto
  from Cons.IH [OF c(4,3)] have "sq_dist p c' = (\<Sum>k < n'. (p ! k - c' ! k)\<^sup>2)" .
  then show ?case
    unfolding c by (simp add: sq_dist_def sum.lessThan_Suc_shift del: sum.lessThan_Suc)
qed

lemma sq_dist_nonneg: "0 \<le> sq_dist p c"
  unfolding sq_dist_def by (rule sum_list_nonneg) auto

lemma sum_list_sum_swap:
  fixes g :: "'b \<Rightarrow> nat \<Rightarrow> 'a::comm_monoid_add"
  shows "(\<Sum>p\<leftarrow>d. \<Sum>k < n. g p k) = (\<Sum>k < n. \<Sum>p\<leftarrow>d. g p k)"
  by (induction d) (simp_all add: sum.distrib)

lemma fold_max_const: "ns \<noteq> [] \<Longrightarrow> \<forall>k \<in> set ns. k = n \<Longrightarrow> fold max ns (a::nat) = max n a"
proof (induction ns arbitrary: a)
  case Nil
  then show ?case by simp
next
  case (Cons k ns)
  show ?case
  proof (cases "ns = []")
    case True
    with Cons.prems show ?thesis by simp
  next
    case False
    with Cons.prems Cons.IH [OF False, of "max k a"] show ?thesis by simp
  qed
qed

lemma centroid_length_uniform:
  "d \<noteq> [] \<Longrightarrow> \<forall>p \<in> set d. length p = n \<Longrightarrow> length (centroid d) = n"
  using fold_max_const [of "map length d" n 0] by (simp add: centroid_length)

text \<open>
  With exact division the \<^verbatim>\<open>centroid\<close> of a cluster whose members have one length is
  at most as far from the members, in total, as any point of that length.
\<close>

lemma centroid_least_cost:
  fixes d :: "('a::linordered_field) list list"
  assumes "d \<noteq> []" and "\<forall>p \<in> set d. length p = n" and "length c = n"
  shows "(\<Sum>p\<leftarrow>d. sq_dist p (centroid d)) \<le> (\<Sum>p\<leftarrow>d. sq_dist p c)"
proof -
  have len: "length (centroid d) = n"
    by (rule centroid_length_uniform [OF assms(1,2)])
  have comp: "centroid d ! k = sum_list (map (\<lambda>p. p ! k) d) / of_nat (length (map (\<lambda>p. p ! k) d))"
    if "k < n" for k
  proof -
    have "(\<Sum>p\<leftarrow>d. if k < length p then p ! k else 0) = (\<Sum>p\<leftarrow>d. p ! k)"
      using assms(2) that by (intro arg_cong [where f = sum_list] map_cong) auto
    with centroid_mean_field [of k d] that len assms(1) show ?thesis by simp
  qed
  have "(\<Sum>p\<leftarrow>d. sq_dist p (centroid d)) = (\<Sum>p\<leftarrow>d. \<Sum>k < n. (p ! k - centroid d ! k)\<^sup>2)"
    using assms(2) len by (intro arg_cong [where f = sum_list] map_cong) (auto simp: sq_dist_sum)
  also have "\<dots> = (\<Sum>k < n. \<Sum>p\<leftarrow>d. (p ! k - centroid d ! k)\<^sup>2)"
    by (rule sum_list_sum_swap)
  also have "\<dots> \<le> (\<Sum>k < n. \<Sum>p\<leftarrow>d. (p ! k - c ! k)\<^sup>2)"
  proof (rule sum_mono)
    fix k assume "k \<in> {..<n}"
    then have k: "k < n" by simp
    have ne: "map (\<lambda>p. p ! k) d \<noteq> []" using assms(1) by simp
    from mean_least_squares [OF ne, of "c ! k"] comp [OF k]
    show "(\<Sum>p\<leftarrow>d. (p ! k - centroid d ! k)\<^sup>2) \<le> (\<Sum>p\<leftarrow>d. (p ! k - c ! k)\<^sup>2)"
      by (simp add: comp_def)
  qed
  also have "\<dots> = (\<Sum>p\<leftarrow>d. \<Sum>k < n. (p ! k - c ! k)\<^sup>2)"
    by (rule sum_list_sum_swap [symmetric])
  also have "\<dots> = (\<Sum>p\<leftarrow>d. sq_dist p c)"
    using assms(2,3) by (intro arg_cong [where f = sum_list] map_cong) (auto simp: sq_dist_sum)
  finally show ?thesis .
qed
section \<open>The cost of a partition, by offset\<close>

lemma partitioned_iff:
  "partitioned s \<longleftrightarrow>
     (\<forall>j < length (kmem s). distinct (kmem s ! j) \<and>
        (\<forall>p \<in> set (kmem s ! j). nearest s (Tuple p) = Inr j))"
proof -
  have "list_all (\<lambda>(j, d). list_all (\<lambda>p. nearest s (Tuple p) = Inr j) d) (enumerate 0 (kmem s)) \<longleftrightarrow>
      (\<forall>j < length (kmem s). \<forall>p \<in> set (kmem s ! j). nearest s (Tuple p) = Inr j)"
    by (subst list_all_length) (simp add: nth_enumerate_eq list_all_iff)
  moreover have "list_all distinct (kmem s) \<longleftrightarrow> (\<forall>j < length (kmem s). distinct (kmem s ! j))"
    by (simp add: list_all_length)
  ultimately show ?thesis
    unfolding partitioned_def by blast
qed

lemma sum_list_zip_nth:
  fixes f :: "'b \<times> 'c \<Rightarrow> 'a::comm_monoid_add"
  shows "sum_list (map f (zip xs ys)) =
     (\<Sum>i < length ys. if i < length xs then f (xs ! i, ys ! i) else 0)"
proof -
  have "sum_list (map f (zip xs ys)) = (\<Sum>i < min (length xs) (length ys). f (xs ! i, ys ! i))"
    by (simp add: sum_list_sum_nth atLeast0LessThan)
  also have "{..<min (length xs) (length ys)} = {..<length ys} \<inter> {i. i < length xs}"
    by auto
  also have "(\<Sum>i \<in> {..<length ys} \<inter> {i. i < length xs}. f (xs ! i, ys ! i)) =
      (\<Sum>i < length ys. if i < length xs then f (xs ! i, ys ! i) else 0)"
    by (simp add: sum.inter_restrict)
  finally show ?thesis .
qed

lemma total_cost_sum:
  "total_cost s =
     (\<Sum>i < length (kmem s).
        if i < length (kctr s) then (\<Sum>p\<leftarrow>kmem s ! i. sq_dist p (kctr s ! i)) else 0)"
  unfolding total_cost_def by (subst sum_list_zip_nth) (rule sum.cong, simp_all)

lemma partitioned_lengths:
  assumes "dist_fn s = euclidean_distance" and "partitioned s"
    and "j < length (kmem s)" and "p \<in> set (kmem s ! j)"
  shows "j < length (kctr s)" and "\<And>i. i < length (kctr s) \<Longrightarrow> length (kctr s ! i) = length p"
proof -
  from assms(2-4) have n: "nearest s (Tuple p) = Inr j"
    by (simp add: partitioned_iff)
  from nearest_default(1) [OF assms(1) n] show "j < length (kctr s)" .
  from nearest_default(2) [OF assms(1) n]
  show "\<And>i. i < length (kctr s) \<Longrightarrow> length (kctr s ! i) = length p" .
qed

text \<open>With exact division the first loop of \<^verbatim>\<open>step\<close> does not raise the cost.\<close>

lemma recompute_cost:
  fixes s :: "('a::linordered_field, 'a) kmeans"
  assumes "dist_fn s = euclidean_distance" and "partitioned s"
    and "recompute s 0 (kmem s) = (s1, Inr u)"
  shows "total_cost s1 \<le> total_cost s"
proof -
  from recompute_fields [OF assms(3)]
  have f: "kmem s1 = kmem s" "length (kctr s1) = length (kctr s)" by simp_all
  show ?thesis
    unfolding total_cost_sum f
  proof (rule sum_mono)
    fix i assume "i \<in> {..<length (kmem s)}"
    then have i: "i < length (kmem s)" by simp
    let ?d = "kmem s ! i"
    show "(if i < length (kctr s) then (\<Sum>p\<leftarrow>?d. sq_dist p (kctr s1 ! i)) else 0) \<le>
        (if i < length (kctr s) then (\<Sum>p\<leftarrow>?d. sq_dist p (kctr s ! i)) else 0)"
    proof (cases "?d = []")
      case True
      then show ?thesis by simp
    next
      case False
      with recompute_result [OF assms(3) i]
      have c1: "i < length (kctr s)" "kctr s1 ! i = centroid ?d" by simp_all
      from False obtain p0 where p0: "p0 \<in> set ?d" by (cases ?d) auto
      have len: "length p = length (kctr s ! i)" if "p \<in> set ?d" for p
        using partitioned_lengths(2) [OF assms(1,2) i that c1(1)] by simp
      have "(\<Sum>p\<leftarrow>?d. sq_dist p (centroid ?d)) \<le> (\<Sum>p\<leftarrow>?d. sq_dist p (kctr s ! i))"
        by (rule centroid_least_cost [OF False, where n = "length (kctr s ! i)"])
           (use len in auto)
      with c1 show ?thesis by simp
    qed
  qed
qed
section \<open>The second loop of step\<close>

lemma distinct_set_add: "distinct xs \<Longrightarrow> distinct (set_add x xs)"
  by (simp add: set_add_def)

lemma distinct_set_discard: "distinct xs \<Longrightarrow> distinct (set_discard x xs)"
  by (simp add: set_discard_def distinct_removeAll)

lemma cost_set_add:
  fixes f :: "'b \<Rightarrow> 'a::linordered_field"
  assumes "0 \<le> f x"
  shows "(\<Sum>p\<leftarrow>set_add x xs. f p) \<le> (\<Sum>p\<leftarrow>xs. f p) + f x"
  using assms by (simp add: set_add_def)

lemma cost_set_discard:
  fixes f :: "'b \<Rightarrow> 'a::linordered_field"
  assumes "distinct xs" and "x \<in> set xs"
  shows "(\<Sum>p\<leftarrow>set_discard x xs. f p) = (\<Sum>p\<leftarrow>xs. f p) - f x"
proof -
  from assms(1) have "removeAll x xs = remove1 x xs"
    by (simp add: distinct_remove1_removeAll)
  with sum_list_map_remove1 [OF assms(2), of f] show ?thesis
    by (simp add: set_discard_def)
qed

lemma sum_two_changed:
  fixes F G :: "nat \<Rightarrow> 'a::linordered_field"
  assumes "a < n" and "b < n" and "a \<noteq> b"
    and "\<And>j. j < n \<Longrightarrow> j \<noteq> a \<Longrightarrow> j \<noteq> b \<Longrightarrow> F j = G j"
    and "F a + F b \<le> G a + G b"
  shows "(\<Sum>j < n. F j) \<le> (\<Sum>j < n. G j)"
proof -
  have split: "(\<Sum>j < n. H j) = H a + H b + (\<Sum>j \<in> {..<n} - {a} - {b}. H j)"
    for H :: "nat \<Rightarrow> 'a"
  proof -
    have "(\<Sum>j < n. H j) = H a + (\<Sum>j \<in> {..<n} - {a}. H j)"
      using assms(1) by (simp add: sum.remove)
    also have "(\<Sum>j \<in> {..<n} - {a}. H j) = H b + (\<Sum>j \<in> {..<n} - {a} - {b}. H j)"
      using assms(2,3) by (simp add: sum.remove)
    finally show ?thesis by (simp add: add.assoc)
  qed
  have "(\<Sum>j \<in> {..<n} - {a} - {b}. F j) = (\<Sum>j \<in> {..<n} - {a} - {b}. G j)"
    by (rule sum.cong) (use assms(4) in auto)
  with assms(5) show ?thesis
    unfolding split [of F] split [of G] by simp
qed

text \<open>
  Moving a member of cluster \<open>cloc\<close> to the cluster \<open>ploc\<close> of its nearest centroid does
  not raise the cost.
\<close>

lemma move_cost:
  fixes s :: "('a::linordered_field, 'a) kmeans"
  assumes "dist_fn s = euclidean_distance" and "nearest s (Tuple pt) = Inr ploc"
    and "ploc \<noteq> cloc" and "ploc < length (kmem s)"
    and "cloc < length (kmem s)" and "cloc < length (kctr s)"
    and "distinct (kmem s ! cloc)" and "pt \<in> set (kmem s ! cloc)"
    and "km = ((kmem s)[cloc := set_discard pt (kmem s ! cloc)])
             [ploc := set_add pt (kmem s ! ploc)]"
  shows "total_cost (s\<lparr>kmem := km\<rparr>) \<le> total_cost s"
proof -
  from nearest_default(1) [OF assms(1,2)] have pl: "ploc < length (kctr s)" .
  let ?n = "length (kmem s)"
  let ?f = "\<lambda>i p. sq_dist p (kctr s ! i)"
  have len: "length km = ?n" by (simp add: assms(9))
  have other: "km ! j = kmem s ! j" if "j < ?n" "j \<noteq> ploc" "j \<noteq> cloc" for j
    using that by (simp add: assms(9))
  have at_p: "km ! ploc = set_add pt (kmem s ! ploc)"
    using assms(4) by (simp add: assms(9))
  have at_c: "km ! cloc = set_discard pt (kmem s ! cloc)"
    using assms(3,5) by (simp add: assms(9))
  have "(\<Sum>p\<leftarrow>km ! ploc. ?f ploc p) \<le> (\<Sum>p\<leftarrow>kmem s ! ploc. ?f ploc p) + ?f ploc pt"
    unfolding at_p by (rule cost_set_add) (rule sq_dist_nonneg)
  moreover have "(\<Sum>p\<leftarrow>km ! cloc. ?f cloc p) = (\<Sum>p\<leftarrow>kmem s ! cloc. ?f cloc p) - ?f cloc pt"
    unfolding at_c by (rule cost_set_discard [OF assms(7,8)])
  moreover have "?f ploc pt \<le> ?f cloc pt"
    by (rule nearest_default(3) [OF assms(1,2,6)])
  ultimately have two:
    "(\<Sum>p\<leftarrow>km ! ploc. ?f ploc p) + (\<Sum>p\<leftarrow>km ! cloc. ?f cloc p) \<le>
     (\<Sum>p\<leftarrow>kmem s ! ploc. ?f ploc p) + (\<Sum>p\<leftarrow>kmem s ! cloc. ?f cloc p)"
    by simp
  let ?F = "\<lambda>j. if j < length (kctr s) then \<Sum>p\<leftarrow>km ! j. ?f j p else 0"
  let ?G = "\<lambda>j. if j < length (kctr s) then \<Sum>p\<leftarrow>kmem s ! j. ?f j p else 0"
  have "(\<Sum>j < ?n. ?F j) \<le> (\<Sum>j < ?n. ?G j)"
  proof (rule sum_two_changed [of ploc ?n cloc])
    show "ploc < ?n" by (rule assms(4))
    show "cloc < ?n" by (rule assms(5))
    show "ploc \<noteq> cloc" by (rule assms(3))
    show "?F j = ?G j" if "j < ?n" "j \<noteq> ploc" "j \<noteq> cloc" for j
      using other [OF that] by simp
    show "?F ploc + ?F cloc \<le> ?G ploc + ?G cloc"
      using two pl assms(6) by simp
  qed
  then show ?thesis
    unfolding total_cost_sum by (simp add: len cong: if_cong)
qed
lemma sets_ok_iff:
  "sets_ok s \<longleftrightarrow>
     (\<forall>i < length (kmem s). distinct (kmem s ! i) \<and> (kmem s ! i \<noteq> [] \<longrightarrow> i < length (kctr s)))"
proof -
  have "list_all (\<lambda>d. d = []) (drop (length (kctr s)) (kmem s)) \<longleftrightarrow>
      (\<forall>i < length (kmem s). kmem s ! i \<noteq> [] \<longrightarrow> i < length (kctr s))"
  proof
    assume l: "list_all (\<lambda>d. d = []) (drop (length (kctr s)) (kmem s))"
    show "\<forall>i < length (kmem s). kmem s ! i \<noteq> [] \<longrightarrow> i < length (kctr s)"
    proof (intro allI impI, rule ccontr)
      fix i assume i: "i < length (kmem s)" "kmem s ! i \<noteq> []" "\<not> i < length (kctr s)"
      then have "i - length (kctr s) < length (drop (length (kctr s)) (kmem s))" by simp
      with l have "drop (length (kctr s)) (kmem s) ! (i - length (kctr s)) = []"
        unfolding list_all_length by blast
      with i show False by simp
    qed
  next
    assume r: "\<forall>i < length (kmem s). kmem s ! i \<noteq> [] \<longrightarrow> i < length (kctr s)"
    show "list_all (\<lambda>d. d = []) (drop (length (kctr s)) (kmem s))"
      unfolding list_all_length
    proof (intro allI impI)
      fix n assume "n < length (drop (length (kctr s)) (kmem s))"
      then have n: "length (kctr s) + n < length (kmem s)" by simp
      with r have "kmem s ! (length (kctr s) + n) = []" by fastforce
      with n show "drop (length (kctr s)) (kmem s) ! n = []" by simp
    qed
  qed
  then show ?thesis
    unfolding sets_ok_def list_all_length [of distinct] by blast
qed

lemma partitioned_sets_ok: "partitioned s \<Longrightarrow> sets_ok s"
  unfolding partitioned_iff sets_ok_iff
proof (intro allI impI conjI)
  fix i assume a: "\<forall>j<length (kmem s). distinct (kmem s ! j) \<and>
      (\<forall>p\<in>set (kmem s ! j). nearest s (Tuple p) = Inr j)" and i: "i < length (kmem s)"
  from a i show "distinct (kmem s ! i)" by blast
  assume "kmem s ! i \<noteq> []"
  then obtain p where "p \<in> set (kmem s ! i)" by (cases "kmem s ! i") auto
  with a i have "nearest s (Tuple p) = Inr i" by blast
  then show "i < length (kctr s)" by (rule nearest_bound)
qed

lemma move_points_cost:
  fixes s :: "('a::linordered_field, 'a) kmeans"
  assumes "dist_fn s = euclidean_distance"
    and "move_points s cloc pts m = (s', Inr m')"
    and "sets_ok s" and "distinct pts" and "set pts \<subseteq> set (kmem s ! cloc)"
    and "cloc < length (kmem s)"
  shows "total_cost s' \<le> total_cost s \<and> sets_ok s'"
  using assms
proof (induction pts arbitrary: s m)
  case Nil
  then show ?case by simp
next
  case (Cons pt pts)
  from Cons.prems(2) obtain ploc where ploc: "nearest s (Tuple pt) = Inr ploc"
    by (cases "nearest s (Tuple pt)") auto
  show ?case
  proof (cases "ploc = cloc")
    case True
    with Cons.prems(2) ploc have "move_points s cloc pts m = (s', Inr m')" by simp
    from Cons.IH [OF Cons.prems(1) this Cons.prems(3)] Cons.prems(4,5,6) show ?thesis by simp
  next
    case False
    define km where
      "km = ((kmem s)[cloc := set_discard pt (kmem s ! cloc)])[ploc := set_add pt (kmem s ! ploc)]"
    from Cons.prems(2) ploc False have pl: "ploc < length (kmem s)"
      by (simp add: Let_def split: if_splits)
    with Cons.prems(2) ploc False have mv: "move_points (s\<lparr>kmem := km\<rparr>) cloc pts (m + 1) = (s', Inr m')"
      by (simp add: Let_def km_def)
    from Cons.prems(5) have pt: "pt \<in> set (kmem s ! cloc)" by simp
    from Cons.prems(3,6) pt have c: "distinct (kmem s ! cloc)" "cloc < length (kctr s)"
      unfolding sets_ok_iff by fastforce+
    have cost: "total_cost (s\<lparr>kmem := km\<rparr>) \<le> total_cost s"
      by (rule move_cost [OF Cons.prems(1) ploc False pl Cons.prems(6) c(2,1) pt km_def])
    have at_c: "km ! cloc = set_discard pt (kmem s ! cloc)"
      using False Cons.prems(6) by (simp add: km_def)
    have ok: "sets_ok (s\<lparr>kmem := km\<rparr>)"
      unfolding sets_ok_iff
    proof (intro allI impI)
      fix i assume "i < length (kmem (s\<lparr>kmem := km\<rparr>))"
      then have i: "i < length (kmem s)" by (simp add: km_def)
      with Cons.prems(3) have old: "distinct (kmem s ! i)"
        "kmem s ! i \<noteq> [] \<longrightarrow> i < length (kctr s)"
        unfolding sets_ok_iff by blast+
      consider "i = ploc" | "i = cloc" "i \<noteq> ploc" | "i \<noteq> cloc" "i \<noteq> ploc" by blast
      then show "distinct (kmem (s\<lparr>kmem := km\<rparr>) ! i) \<and>
          (kmem (s\<lparr>kmem := km\<rparr>) ! i \<noteq> [] \<longrightarrow> i < length (kctr (s\<lparr>kmem := km\<rparr>)))"
      proof cases
        case 1
        with i old nearest_bound [OF ploc] show ?thesis
          by (simp add: km_def distinct_set_add)
      next
        case 2
        with i old c(2) show ?thesis
          by (simp add: km_def distinct_set_discard)
      next
        case 3
        with i old show ?thesis by (simp add: km_def)
      qed
    qed
    from Cons.prems(4,5) have sub: "set pts \<subseteq> set (kmem (s\<lparr>kmem := km\<rparr>) ! cloc)"
      by (auto simp: at_c set_set_discard)
    have "total_cost s' \<le> total_cost (s\<lparr>kmem := km\<rparr>) \<and> sets_ok s'"
      by (rule Cons.IH [OF _ mv ok _ sub])
         (use Cons.prems(1,4,6) in \<open>simp_all add: km_def\<close>)
    with cost show ?thesis by simp
  qed
qed

lemma reassign_cost:
  fixes s :: "('a::linordered_field, 'a) kmeans"
  assumes "dist_fn s = euclidean_distance"
    and "reassign s cs m = (s', Inr m')"
    and "sets_ok s" and "\<forall>c \<in> set cs. c < length (kmem s)"
  shows "total_cost s' \<le> total_cost s \<and> sets_ok s'"
  using assms
proof (induction cs arbitrary: s m)
  case Nil
  then show ?case by simp
next
  case (Cons cloc rest)
  obtain s1 r1 where mp: "move_points s cloc (kmem s ! cloc) m = (s1, r1)"
    by (cases "move_points s cloc (kmem s ! cloc) m")
  with Cons.prems(2) obtain m1 where r1: "r1 = Inr m1"
    by (cases r1) auto
  with Cons.prems(2) mp have re: "reassign s1 rest m1 = (s', Inr m')" by simp
  from Cons.prems(4) have cl: "cloc < length (kmem s)" by simp
  with Cons.prems(3) have d: "distinct (kmem s ! cloc)"
    unfolding sets_ok_iff by blast
  from move_points_cost [OF Cons.prems(1) mp [unfolded r1] Cons.prems(3) d _ cl]
  have one: "total_cost s1 \<le> total_cost s" "sets_ok s1" by simp_all
  from move_points_fields [OF mp] Cons.prems(1,4)
  have f: "dist_fn s1 = euclidean_distance" "\<forall>c \<in> set rest. c < length (kmem s1)" by simp_all
  from Cons.IH [OF f(1) re one(2) f(2)] one(1) show ?case by simp
qed

section \<open>Every member is at its nearest centroid after a step\<close>

lemma nearest_kmem_update: "nearest (s\<lparr>kmem := km\<rparr>) pt = nearest s pt"
  by (simp add: nearest_def)

lemma move_points_assigned:
  assumes "move_points s cloc pts m = (s', Inr m')" and "cloc < length (kmem s)"
    and "\<forall>i < length (kmem s). i < cloc \<longrightarrow> (\<forall>p \<in> set (kmem s ! i). nearest s (Tuple p) = Inr i)"
    and "\<forall>p \<in> set (kmem s ! cloc). p \<in> set pts \<or> nearest s (Tuple p) = Inr cloc"
  shows "\<forall>i < length (kmem s'). i \<le> cloc \<longrightarrow>
     (\<forall>p \<in> set (kmem s' ! i). nearest s (Tuple p) = Inr i)"
  using assms
proof (induction pts arbitrary: s m)
  case Nil
  show ?case
  proof (intro allI impI ballI)
    fix i p assume "i < length (kmem s')" "i \<le> cloc" "p \<in> set (kmem s' ! i)"
    with Nil show "nearest s (Tuple p) = Inr i"
      by (cases "i = cloc") auto
  qed
next
  case (Cons pt pts)
  from Cons.prems(1) obtain ploc where ploc: "nearest s (Tuple pt) = Inr ploc"
    by (cases "nearest s (Tuple pt)") auto
  show ?case
  proof (cases "ploc = cloc")
    case True
    with Cons.prems(1) ploc have mv: "move_points s cloc pts m = (s', Inr m')" by simp
    have "\<forall>p \<in> set (kmem s ! cloc). p \<in> set pts \<or> nearest s (Tuple p) = Inr cloc"
      using Cons.prems(4) ploc True by auto
    from Cons.IH [OF mv Cons.prems(2,3) this] show ?thesis .
  next
    case False
    define km where
      "km = ((kmem s)[cloc := set_discard pt (kmem s ! cloc)])[ploc := set_add pt (kmem s ! ploc)]"
    from Cons.prems(1) ploc False have pl: "ploc < length (kmem s)"
      by (simp add: Let_def split: if_splits)
    with Cons.prems(1) ploc False
    have mv: "move_points (s\<lparr>kmem := km\<rparr>) cloc pts (m + 1) = (s', Inr m')"
      by (simp add: Let_def km_def)
    have a: "\<forall>i < length (kmem (s\<lparr>kmem := km\<rparr>)). i < cloc \<longrightarrow>
        (\<forall>p \<in> set (kmem (s\<lparr>kmem := km\<rparr>) ! i). nearest (s\<lparr>kmem := km\<rparr>) (Tuple p) = Inr i)"
    proof (intro allI impI ballI)
      fix i p
      assume i: "i < length (kmem (s\<lparr>kmem := km\<rparr>))" "i < cloc"
        and p: "p \<in> set (kmem (s\<lparr>kmem := km\<rparr>) ! i)"
      from i have i': "i < length (kmem s)" by (simp add: km_def)
      show "nearest (s\<lparr>kmem := km\<rparr>) (Tuple p) = Inr i"
      proof (cases "i = ploc")
        case True
        with p i' have "p = pt \<or> p \<in> set (kmem s ! i)"
          by (auto simp: km_def set_set_add)
        with Cons.prems(3) i' i(2) ploc True show ?thesis
          by (auto simp: nearest_kmem_update)
      next
        case False
        with p i' i(2) have "p \<in> set (kmem s ! i)"
          by (simp add: km_def)
        with Cons.prems(3) i' i(2) show ?thesis
          by (auto simp: nearest_kmem_update)
      qed
    qed
    have c: "\<forall>p \<in> set (kmem (s\<lparr>kmem := km\<rparr>) ! cloc).
        p \<in> set pts \<or> nearest (s\<lparr>kmem := km\<rparr>) (Tuple p) = Inr cloc"
    proof
      fix p assume "p \<in> set (kmem (s\<lparr>kmem := km\<rparr>) ! cloc)"
      with False Cons.prems(2) have "p \<in> set (kmem s ! cloc)" "p \<noteq> pt"
        by (auto simp: km_def set_set_discard)
      with Cons.prems(4) show "p \<in> set pts \<or> nearest (s\<lparr>kmem := km\<rparr>) (Tuple p) = Inr cloc"
        by (auto simp: nearest_kmem_update)
    qed
    have l: "cloc < length (kmem (s\<lparr>kmem := km\<rparr>))"
      using Cons.prems(2) by (simp add: km_def)
    from Cons.IH [OF mv l a c] show ?thesis
      by (simp add: nearest_kmem_update)
  qed
qed

lemma reassign_assigned:
  assumes "reassign s [k..<n] m = (s', Inr m')" and "n = length (kmem s)"
    and "\<forall>i < length (kmem s). i < k \<longrightarrow> (\<forall>p \<in> set (kmem s ! i). nearest s (Tuple p) = Inr i)"
  shows "\<forall>i < length (kmem s'). i < max k n \<longrightarrow>
     (\<forall>p \<in> set (kmem s' ! i). nearest s (Tuple p) = Inr i)"
  using assms
proof (induction "n - k" arbitrary: k s m)
  case 0
  then have e: "[k..<n] = []" and nk: "n \<le> k" by simp_all
  from "0.prems"(1) [unfolded e] have s': "s' = s" by simp
  show ?case
  proof (intro allI impI ballI)
    fix i p assume i: "i < length (kmem s')" "i < max k n" and p: "p \<in> set (kmem s' ! i)"
    from i(2) nk have "i < k" by simp
    with "0.prems"(3) i(1) p show "nearest s (Tuple p) = Inr i"
      unfolding s' by blast
  qed
next
  case (Suc d)
  then have kn: "k < n" by simp
  then have up: "[k..<n] = k # [Suc k..<n]" by (rule upt_conv_Cons)
  obtain s1 r1 where mp: "move_points s k (kmem s ! k) m = (s1, r1)"
    by (cases "move_points s k (kmem s ! k) m")
  with Suc.prems(1) up obtain m1 where r1: "r1 = Inr m1"
    by (cases r1) auto
  with Suc.prems(1) up mp have re: "reassign s1 [Suc k..<n] m1 = (s', Inr m')" by simp
  from move_points_fields [OF mp] have f: "kctr s1 = kctr s" "dist_fn s1 = dist_fn s"
    "length (kmem s1) = length (kmem s)" by simp_all
  have near: "nearest s1 pt = nearest s pt" for pt
    by (rule nearest_cong [OF f(1,2)])
  from kn Suc.prems(2) have kl: "k < length (kmem s)" by simp
  have "\<forall>i < length (kmem s1). i \<le> k \<longrightarrow> (\<forall>p \<in> set (kmem s1 ! i). nearest s (Tuple p) = Inr i)"
    by (rule move_points_assigned [OF mp [unfolded r1] kl Suc.prems(3)]) simp
  then have a: "\<forall>i < length (kmem s1). i < Suc k \<longrightarrow>
      (\<forall>p \<in> set (kmem s1 ! i). nearest s1 (Tuple p) = Inr i)"
    by (simp add: near less_Suc_eq_le)
  have d: "d = n - Suc k" using Suc.hyps(2) by simp
  from Suc.hyps(1) [OF d re _ a] Suc.prems(2) f(3) kn show ?case
    by (simp add: near max_def)
qed

lemma assign_all_distinct:
  "assign_all s pts = (s', r) \<Longrightarrow> \<forall>i < length (kmem s). distinct (kmem s ! i) \<Longrightarrow>
     \<forall>i < length (kmem s'). distinct (kmem s' ! i)"
proof (induction pts arbitrary: s)
  case Nil
  then show ?case by simp
next
  case (Cons pt pts)
  show ?case
  proof (cases "nearest s (Tuple pt)")
    case (Inl e)
    with Cons.prems show ?thesis by simp
  next
    case (Inr ploc)
    show ?thesis
    proof (cases "ploc < length (kmem s)")
      case False
      with Inr Cons.prems show ?thesis by simp
    next
      case True
      let ?s1 = "s\<lparr>kmem := (kmem s)[ploc := set_add pt (kmem s ! ploc)]\<rparr>"
      from Inr True Cons.prems(1) have a: "assign_all ?s1 pts = (s', r)" by simp
      have "\<forall>i < length (kmem ?s1). distinct (kmem ?s1 ! i)"
        using Cons.prems(2) True by (simp add: nth_list_update distinct_set_add)
      from Cons.IH [OF a this] show ?thesis .
    qed
  qed
qed

text \<open>\<^verbatim>\<open>start()\<close> leaves a partitioned state when it returns, whatever the metric.\<close>

lemma start_partitioned:
  assumes "start s = (s', Inr u)"
  shows "partitioned s'"
  unfolding partitioned_iff
proof (intro allI impI conjI ballI)
  from assms have a: "assign_all (reset_clusters s) (data s) = (s', Inr u)"
    by (simp add: start_def split: if_splits)
  have "\<forall>i < length (kmem (reset_clusters s)). distinct (kmem (reset_clusters s) ! i)"
    by (simp add: reset_clusters_def)
  from assign_all_distinct [OF a this]
  have d: "\<forall>i < length (kmem s'). distinct (kmem s' ! i)" .
  fix j assume j: "j < length (kmem s')"
  with d show "distinct (kmem s' ! j)" by blast
  fix p assume "p \<in> set (kmem s' ! j)"
  from start_fields [OF assms] have "nearest s' (Tuple p) = nearest s (Tuple p)"
    by (intro nearest_cong) simp_all
  with start_returns(4) [OF assms j \<open>p \<in> set (kmem s' ! j)\<close>]
  show "nearest s' (Tuple p) = Inr j" by simp
qed

text \<open>
  The convergence property on exact arithmetic: when the components are of a field
  (\<open>rat\<close>, \<open>real\<close>; Python's \<^verbatim>\<open>Fraction\<close>), under the default metric, a \<^verbatim>\<open>step()\<close> that
  returns from a partitioned state leaves a partitioned state whose cost is not larger.
\<close>

lemma step_cost_exact:
  fixes s :: "('a::linordered_field, 'a) kmeans"
  assumes "dist_fn s = euclidean_distance" and "partitioned s" and "step s = (s', Inr m)"
  shows "total_cost s' \<le> total_cost s" and "partitioned s'"
proof -
  obtain s1 r1 where rc: "recompute s 0 (kmem s) = (s1, r1)"
    by (cases "recompute s 0 (kmem s)")
  with assms(3) obtain u where r1: "r1 = Inr u"
    by (cases r1) (auto simp: step_def)
  with assms(3) rc have re: "reassign s1 [0..<length (kmem s1)] 0 = (s', Inr m)"
    by (simp add: step_def)
  from recompute_fields [OF rc]
  have f: "kmem s1 = kmem s" "length (kctr s1) = length (kctr s)" "dist_fn s1 = dist_fn s"
    by simp_all
  have c1: "total_cost s1 \<le> total_cost s"
    by (rule recompute_cost [OF assms(1,2) rc [unfolded r1]])
  from partitioned_sets_ok [OF assms(2)] have ok1: "sets_ok s1"
    by (simp add: sets_ok_iff f)
  have "total_cost s' \<le> total_cost s1 \<and> sets_ok s'"
    by (rule reassign_cost [OF _ re ok1]) (use f(3) assms(1) in simp_all)
  with c1 show "total_cost s' \<le> total_cost s" by simp
  from \<open>total_cost s' \<le> total_cost s1 \<and> sets_ok s'\<close> have ok: "sets_ok s'" by simp
  from reassign_assigned [OF re refl]
  have n: "\<forall>i < length (kmem s'). i < length (kmem s1) \<longrightarrow>
      (\<forall>p \<in> set (kmem s' ! i). nearest s1 (Tuple p) = Inr i)"
    by simp
  from reassign_fields [OF re] have g: "kctr s' = kctr s1" "dist_fn s' = dist_fn s1"
    "length (kmem s') = length (kmem s1)" by simp_all
  show "partitioned s'"
    unfolding partitioned_iff
  proof (intro allI impI conjI ballI)
    fix j assume j: "j < length (kmem s')"
    with ok show "distinct (kmem s' ! j)" unfolding sets_ok_iff by blast
    fix p assume "p \<in> set (kmem s' ! j)"
    with n j g(3) have "nearest s1 (Tuple p) = Inr j" by simp
    then show "nearest s' (Tuple p) = Inr j"
      by (simp add: nearest_cong [OF g(1,2)])
  qed
qed
text \<open>
  The engine of \<open>ex_cost\<close> on fractions: \<^verbatim>\<open>start()\<close> leaves the same clusters, of cost
  11, and \<^verbatim>\<open>step()\<close> the centroids \<open>(11/2,)\<close> and \<open>(4/3,)\<close>, of cost \<open>55/6\<close>.
\<close>

lemma ex_cost_exact_start:
  "start ex_cost_exact =
     (\<lparr>dist_fn = euclidean_distance, kctr = [[5], [2]],
       kmem = [[[4], [7]], [[0], [1], [3]]], data = [[0], [1], [3], [4], [7]]\<rparr>, Inr ())"
  by (simp add: ex_cost_exact_def KMeans_init_def add_data_def add_centroid_def set_add_def
      as_tuple_def start_def reset_clusters_def nearest_def argmin_def
      euclidean_distance_def)

lemma ex_cost_exact_step:
  "step \<lparr>dist_fn = euclidean_distance, kctr = [[5], [2 :: rat]],
       kmem = [[[4], [7]], [[0], [1], [3]]], data = [[0], [1], [3], [4], [7]]\<rparr> =
     (\<lparr>dist_fn = euclidean_distance, kctr = [[11 / 2], [4 / 3]],
       kmem = [[[4], [7]], [[0], [1], [3]]], data = [[0], [1], [3], [4], [7]]\<rparr>, Inr 0)"
  by (simp add: step_def centroid_def upt_rec nearest_def argmin_def
      euclidean_distance_def set_add_def set_discard_def power2_eq_square)

lemma step_cost_exact_example:
  "partitioned (fst (start ex_cost_exact)) \<and>
   total_cost (fst (start ex_cost_exact)) = 11 \<and>
   total_cost (fst (step (fst (start ex_cost_exact)))) = 55 / 6 \<and>
   partitioned (fst (step (fst (start ex_cost_exact))))"
proof -
  have p: "partitioned (fst (start ex_cost_exact))"
    by (rule start_partitioned [where s = ex_cost_exact and u = "()"])
       (simp add: ex_cost_exact_start)
  have d: "dist_fn (fst (start ex_cost_exact)) = euclidean_distance"
    by (simp add: ex_cost_exact_start)
  have st: "step (fst (start ex_cost_exact)) = (fst (step (fst (start ex_cost_exact))), Inr 0)"
    by (simp add: ex_cost_exact_start ex_cost_exact_step)
  from step_cost_exact(2) [OF d p st] p show ?thesis
    by (simp add: ex_cost_exact_start ex_cost_exact_step total_cost_def sq_dist_def
        power2_eq_square)
qed

section \<open>Partition totality\<close>

lemma ex_far_start:
  "start ex_far = (ex_far\<lparr>kmem := [[[1], [10]], [[0]]]\<rparr>, Inr ())"
  by (simp add: ex_far_def KMeans_init_def add_data_def add_centroid_def set_add_def
      as_tuple_def start_def reset_clusters_def nearest_def argmin_def
      euclidean_distance_def)

text \<open>
  Claim C8: whatever the metric, when \<^verbatim>\<open>start()\<close> returns the centroid list is not
  empty, the union of the membership sets it leaves is exactly the sample set, and two
  membership sets at different offsets have no point in common. And \<^verbatim>\<open>start()\<close> does
  return under the default metric when the centroid list is not empty and the sample
  points and centroids all have \<open>n\<close> components (the membership list being at least as
  long as the centroid list, as the public operations keep it).
\<close>

theorem start_partition:
  "(start s = (s', Inr u) \<longrightarrow>
      kctr s \<noteq> [] \<and> data s' = data s \<and>
      (\<Union>d \<in> set (kmem s'). set d) = set (data s') \<and>
      (\<forall>i < length (kmem s'). \<forall>j < length (kmem s'). i \<noteq> j \<longrightarrow>
         set (kmem s' ! i) \<inter> set (kmem s' ! j) = {})) \<and>
   (dist_fn s = euclidean_distance \<and> kctr s \<noteq> [] \<and>
    (\<forall>c \<in> set (kctr s). length c = n) \<and> (\<forall>p \<in> set (data s). length p = n) \<and>
    length (kctr s) \<le> length (kmem s) \<longrightarrow>
      (\<exists>t. start s = (t, Inr ())))"
proof (intro conjI impI)
  assume st: "start s = (s', Inr u)"
  then show "kctr s \<noteq> []" by (auto simp: start_def split: if_splits)
  from start_returns(1) [OF st] show d: "data s' = data s" .
  from start_returns(3) [OF st] d show "(\<Union>d \<in> set (kmem s'). set d) = set (data s')"
    by simp
  from start_disjoint [OF st]
  show "\<forall>i < length (kmem s'). \<forall>j < length (kmem s'). i \<noteq> j \<longrightarrow>
      set (kmem s' ! i) \<inter> set (kmem s' ! j) = {}"
    by blast
next
  assume h: "dist_fn s = euclidean_distance \<and> kctr s \<noteq> [] \<and>
    (\<forall>c \<in> set (kctr s). length c = n) \<and> (\<forall>p \<in> set (data s). length p = n) \<and>
    length (kctr s) \<le> length (kmem s)"
  have "\<exists>t. assign_all (reset_clusters s) (data s) = (t, Inr ())"
    by (rule assign_all_total [where n = n]) (use h in \<open>simp_all add: reset_clusters_def\<close>)
  with h show "\<exists>t. start s = (t, Inr ())"
    by (auto simp: start_def)
qed

theorem start_partition_witness:
  "start ex_far = (ex_far\<lparr>kmem := [[[1], [10]], [[0]]]\<rparr>, Inr ()) \<and>
   (\<Union>d \<in> set (kmem (ex_far\<lparr>kmem := [[[1], [10]], [[0]]]\<rparr>)). set d) =
     set (data (ex_far\<lparr>kmem := [[[1], [10]], [[0]]]\<rparr>)) \<and>
   set [[1], [10 :: int]] \<inter> set [[0]] = {} \<and>
   dist_fn ex_run = euclidean_distance \<and> kctr ex_run = [[0], [1]] \<and>
   data ex_run = [[0], [1], [10]] \<and> length (kctr ex_run) \<le> length (kmem ex_run) \<and>
   (\<exists>t. start ex_run = (t, Inr ())) \<and>
   start ex_run = (ex_run\<lparr>kmem := [[[0]], [[1], [10]]]\<rparr>, Inr ()) \<and>
   (\<Union>d \<in> set (kmem (ex_run\<lparr>kmem := [[[0]], [[1], [10]]]\<rparr>)). set d) =
     set (data (ex_run\<lparr>kmem := [[[0]], [[1], [10]]]\<rparr>)) \<and>
   set [[0 :: int]] \<inter> set [[1], [10]] = {}"
proof -
  let ?F = "ex_far\<lparr>kmem := [[[1], [10]], [[0]]]\<rparr>"
  let ?T = "ex_run\<lparr>kmem := [[[0]], [[1], [10]]]\<rparr>"
  note far = start_partition [of ex_far ?F "()" 1, THEN conjunct1, THEN mp, OF ex_far_start]
  note run = start_partition [of ex_run ?T "()" 1, THEN conjunct1, THEN mp, OF ex_run_start]
  have f1: "(\<Union>d \<in> set (kmem ?F). set d) = set (data ?F)"
    using far by (elim conjE)
  have f2: "\<forall>i < length (kmem ?F). \<forall>j < length (kmem ?F). i \<noteq> j \<longrightarrow>
      set (kmem ?F ! i) \<inter> set (kmem ?F ! j) = {}"
    using far by (elim conjE)
  have f3: "set [[1], [10 :: int]] \<inter> set [[0]] = {}"
    using f2 [rule_format, of 0 1] by simp
  have r1: "(\<Union>d \<in> set (kmem ?T). set d) = set (data ?T)"
    using run by (elim conjE)
  have r2: "\<forall>i < length (kmem ?T). \<forall>j < length (kmem ?T). i \<noteq> j \<longrightarrow>
      set (kmem ?T ! i) \<inter> set (kmem ?T ! j) = {}"
    using run by (elim conjE)
  have r3: "set [[0 :: int]] \<inter> set [[1], [10]] = {}"
    using r2 [rule_format, of 0 1] by simp
  have h: "dist_fn ex_run = euclidean_distance \<and> kctr ex_run \<noteq> [] \<and>
      (\<forall>c \<in> set (kctr ex_run). length c = 1) \<and> (\<forall>p \<in> set (data ex_run). length p = 1) \<and>
      length (kctr ex_run) \<le> length (kmem ex_run)"
    by (simp add: ex_run_state)
  have r4: "\<exists>t. start ex_run = (t, Inr ())"
    by (rule start_partition [of ex_run _ _ 1, THEN conjunct2, THEN mp, OF h])
  have g: "dist_fn ex_run = euclidean_distance" "kctr ex_run = [[0], [1]]"
    "data ex_run = [[0], [1], [10]]" "length (kctr ex_run) \<le> length (kmem ex_run)"
    by (simp_all add: ex_run_state)
  show ?thesis
    using ex_far_start f1 f3 g r4 ex_run_start r1 r3 by - (intro conjI, assumption+)
qed

section \<open>Which errors are raised before any mutation\<close>

lemma euclidean_distance_raises:
  "euclidean_distance p q = Inl e \<Longrightarrow> e = TypeError \<or> e = DimensionMismatch"
  by (auto simp: euclidean_distance_def split: pyval.splits if_splits)

lemma nearest_error:
  assumes "nearest s pt = Inl e"
  shows "(kctr s = [] \<and> e = EmptySequence) \<or> (\<exists>c. dist_fn s pt (Tuple c) = Inl e)"
  using argmin_error [OF assms [unfolded nearest_def]] by blast

lemma assign_all_error:
  "assign_all s pts = (s', Inl e) \<Longrightarrow>
     e = IndexError \<or> (kctr s = [] \<and> e = EmptySequence) \<or> (\<exists>p c. dist_fn s p c = Inl e)"
proof (induction pts arbitrary: s)
  case Nil
  then show ?case by simp
next
  case (Cons pt pts)
  show ?case
  proof (cases "nearest s (Tuple pt)")
    case (Inl e')
    with Cons.prems have "e' = e" by simp
    with nearest_error [OF Inl] show ?thesis by blast
  next
    case (Inr ploc)
    show ?thesis
    proof (cases "ploc < length (kmem s)")
      case True
      let ?s1 = "s\<lparr>kmem := (kmem s)[ploc := set_add pt (kmem s ! ploc)]\<rparr>"
      from Inr True Cons.prems have "assign_all ?s1 pts = (s', Inl e)" by simp
      from Cons.IH [OF this] show ?thesis by simp
    next
      case False
      with Inr Cons.prems show ?thesis by simp
    qed
  qed
qed

lemma start_error:
  assumes "start s = (s', Inl e)"
  shows "(kctr s = [] \<and> e = NoCentroidsDefined \<and> s' = s) \<or> e = IndexError \<or>
     (\<exists>p c. dist_fn s p c = Inl e)"
proof (cases "kctr s = []")
  case True
  with assms show ?thesis by (simp add: start_def)
next
  case False
  with assms have "assign_all (reset_clusters s) (data s) = (s', Inl e)"
    by (simp add: start_def)
  from assign_all_error [OF this] False show ?thesis
    by (simp add: reset_clusters_def)
qed

lemma recompute_error: "recompute s pos ds = (s', Inl e) \<Longrightarrow> e = IndexError"
  by (induction ds arbitrary: s pos) (auto split: if_splits)

lemma recompute_no_centroids:
  "recompute s pos ds = (s', Inr u) \<Longrightarrow> kctr s = [] \<Longrightarrow> \<forall>d \<in> set ds. d = []"
  by (induction ds arbitrary: s pos) (auto split: if_splits)

lemma reassign_empty:
  "\<forall>d \<in> set (kmem s). d = [] \<Longrightarrow> \<forall>c \<in> set cs. c < length (kmem s) \<Longrightarrow>
     reassign s cs m = (s, Inr m)"
proof (induction cs)
  case Nil
  then show ?case by simp
next
  case (Cons cloc rest)
  from Cons.prems have e: "kmem s ! cloc = []" by simp
  have mp: "move_points s cloc (kmem s ! cloc) m = (s, Inr m)"
    unfolding e by simp
  from Cons.prems have "reassign s rest m = (s, Inr m)"
    by (intro Cons.IH) simp_all
  then show ?case by (simp add: mp)
qed

lemma move_points_error:
  "move_points s cloc pts m = (s', Inl e) \<Longrightarrow>
     e = IndexError \<or> kctr s = [] \<or> (\<exists>p c. dist_fn s p c = Inl e)"
proof (induction pts arbitrary: s m)
  case Nil
  then show ?case by simp
next
  case (Cons pt pts)
  show ?case
  proof (cases "nearest s (Tuple pt)")
    case (Inl e')
    with Cons.prems have "e' = e" by simp
    with nearest_error [OF Inl] show ?thesis by blast
  next
    case (Inr ploc)
    show ?thesis
    proof (cases "ploc = cloc")
      case True
      with Inr Cons.prems have "move_points s cloc pts m = (s', Inl e)" by simp
      from Cons.IH [OF this] show ?thesis .
    next
      case False
      let ?s1 = "s\<lparr>kmem := (kmem s)[cloc := set_discard pt (kmem s ! cloc)]\<rparr>"
      let ?s2 = "?s1\<lparr>kmem := (kmem ?s1)[ploc := set_add pt (kmem ?s1 ! ploc)]\<rparr>"
      show ?thesis
      proof (cases "ploc < length (kmem ?s1)")
        case True
        with Inr False Cons.prems have "move_points ?s2 cloc pts (m + 1) = (s', Inl e)"
          by (simp add: Let_def)
        from Cons.IH [OF this] show ?thesis by simp
      next
        case F: False
        with Inr False Cons.prems show ?thesis by (simp add: Let_def)
      qed
    qed
  qed
qed

lemma reassign_error:
  "reassign s cs m = (s', Inl e) \<Longrightarrow>
     e = IndexError \<or> kctr s = [] \<or> (\<exists>p c. dist_fn s p c = Inl e)"
proof (induction cs arbitrary: s m)
  case Nil
  then show ?case by simp
next
  case (Cons cloc rest)
  obtain s1 r1 where mp: "move_points s cloc (kmem s ! cloc) m = (s1, r1)"
    by (cases "move_points s cloc (kmem s ! cloc) m")
  show ?case
  proof (cases r1)
    case (Inl e')
    with Cons.prems mp have "e' = e" by simp
    with move_points_error [OF mp [unfolded Inl]] show ?thesis by simp
  next
    case (Inr m1)
    with Cons.prems mp have "reassign s1 rest m1 = (s', Inl e)" by simp
    from Cons.IH [OF this] move_points_fields [OF mp] show ?thesis by simp
  qed
qed

text \<open>
  \<^verbatim>\<open>step()\<close> raises an error of the metric or an \<^verbatim>\<open>IndexError\<close>, nothing else: with an
  empty centroid list it either fails at \<^verbatim>\<open>self._kctr[pos] = ...\<close> or finds no point to
  look at, so \<^verbatim>\<open>argmin\<close> is never called on an empty list.
\<close>

lemma step_error:
  assumes "step s = (s', Inl e)"
  shows "e = IndexError \<or> (\<exists>p c. dist_fn s p c = Inl e)"
proof -
  obtain s1 r1 where rc: "recompute s 0 (kmem s) = (s1, r1)"
    by (cases "recompute s 0 (kmem s)")
  note f = recompute_fields [OF rc]
  show ?thesis
  proof (cases r1)
    case (Inl e')
    with assms rc have "e' = e" by (simp add: step_def)
    with recompute_error [OF rc [unfolded Inl]] show ?thesis by simp
  next
    case (Inr u)
    with assms rc have re: "reassign s1 [0..<length (kmem s1)] 0 = (s', Inl e)"
      by (simp add: step_def)
    show ?thesis
    proof (cases "kctr s = []")
      case True
      from recompute_no_centroids [OF rc [unfolded Inr] True] f
      have "\<forall>d \<in> set (kmem s1). d = []" by simp
      from reassign_empty [OF this, of "[0..<length (kmem s1)]" 0] re show ?thesis by simp
    next
      case False
      with f have "kctr s1 \<noteq> []" by auto
      with reassign_error [OF re] f show ?thesis by simp
    qed
  qed
qed

lemma run_loop_error:
  assumes "run_loop s maxi calls = Some y"
  shows "\<forall>e. fst (snd y) = Inl e \<longrightarrow> e = IndexError \<or> (\<exists>p c. dist_fn s p c = Inl e)"
proof (rule run_loop.raw_induct
    [where P = "\<lambda>s m c y. \<forall>e. fst (snd y) = Inl e \<longrightarrow>
       e = IndexError \<or> (\<exists>p c. dist_fn s p c = Inl e)"], goal_cases)
  case (1 f s maxi calls y)
  obtain s1 r1 where st: "step s = (s1, r1)" by (cases "step s")
  show ?case
  proof (intro allI impI)
    fix e assume e: "fst (snd y) = Inl e"
    show "e = IndexError \<or> (\<exists>p c. dist_fn s p c = Inl e)"
    proof (cases r1)
      case (Inl e')
      with "1"(2) st e have "e' = e" by auto
      with step_error [OF st [unfolded Inl]] show ?thesis by simp
    next
      case (Inr moves)
      show ?thesis
      proof (cases "moves \<noteq> 0 \<and> maxi \<noteq> Some 0")
        case False
        with "1"(2) st Inr e show ?thesis by (auto split: if_splits)
      next
        case True
        with "1"(2) st Inr
        have "f s1
            (case maxi of None \<Rightarrow> None | Some m \<Rightarrow> if m > 0 then Some (m - 1) else Some m)
            (calls + 1) = Some y"
          by simp
        from "1"(1) [OF this] e step_fields [OF st] show ?thesis by simp
      qed
    qed
  qed
qed (rule assms)

lemma run_error:
  assumes "run s maxi = Some (s', Inl e, n)"
  shows "(kctr s = [] \<and> e = NoCentroidsDefined \<and> s' = s \<and> n = 0) \<or> e = IndexError \<or>
     (\<exists>p c. dist_fn s p c = Inl e)"
proof -
  obtain s0 r0 where st: "start s = (s0, r0)" by (cases "start s")
  show ?thesis
  proof (cases r0)
    case (Inl e')
    with assms st have "e' = e" "s' = s0" "n = 0" by (simp_all add: run_def)
    with start_error [OF st [unfolded Inl]] show ?thesis by auto
  next
    case (Inr u)
    with assms st have "run_loop s0 maxi 0 = Some (s', Inl e, n)" by (simp add: run_def)
    from run_loop_error [OF this] start_fields [OF st] show ?thesis by simp
  qed
qed

lemma find_cluster_error:
  assumes "find_cluster s pt = Inl e"
  shows "e = IndexError \<or> (kctr s = [] \<and> e = EmptySequence) \<or>
     (\<exists>c. dist_fn s pt (Tuple c) = Inl e)"
proof (cases "find_member pt (kmem s) 0")
  case (Some pos)
  with assms show ?thesis by (simp add: find_cluster_def split: if_splits)
next
  case None
  show ?thesis
  proof (cases "nearest s pt")
    case (Inl e')
    with assms None have "e' = e" by (simp add: find_cluster_def)
    with nearest_error [OF Inl] show ?thesis by blast
  next
    case (Inr ploc)
    with assms None show ?thesis by (simp add: find_cluster_def split: if_splits)
  qed
qed

lemma run_data:
  assumes "run s maxi = Some (s', r, n)"
  shows "data s' = data s"
proof (rule run_steps [where P = "\<lambda>t. data t = data s", OF _ _ assms])
  fix t t' :: "('a, 'b) kmeans" and x
  assume "data t = data s" "start t = (t', x)"
  with start_fields [of t t' x] show "data t' = data s" by simp
next
  fix t t' :: "('a, 'b) kmeans" and x
  assume "data t = data s" "step t = (t', x)"
  with step_fields [of t t' x] show "data t' = data s" by simp
next
  show "data s = data s" by simp
qed
text \<open>
  Claim C3, amended. Let \<open>e\<close> be an error that the metric of the engine never raises
  (under the default metric: every error but the dimension mismatch and the
  \<^verbatim>\<open>TypeError\<close> of \<^verbatim>\<open>len\<close>) and that is not an \<^verbatim>\<open>IndexError\<close>; "no centroids",
  "empty sequence" and "insufficient data" are such errors. Whenever a public operation
  raises \<open>e\<close>, the engine is exactly as it was before the call: \<^verbatim>\<open>start()\<close> and
  \<^verbatim>\<open>run()\<close> raise it only as "no centroids", on an empty centroid list and before
  anything else; \<^verbatim>\<open>step()\<close> never raises it; \<^verbatim>\<open>find_cluster\<close>, which changes nothing,
  raises it only as the "empty sequence" of \<^verbatim>\<open>argmin\<close> on an empty centroid list; and
  \<^verbatim>\<open>random_centroids(k)\<close> raises nothing but "insufficient data", before it changes
  anything. Whether they return or raise, \<^verbatim>\<open>start()\<close> leaves the data set and the
  centroid list as they were, \<^verbatim>\<open>step()\<close> and \<^verbatim>\<open>run()\<close> the data set.
\<close>

theorem errors_before_mutation:
  assumes "\<forall>p c. dist_fn s p c \<noteq> Inl e" and "e \<noteq> IndexError"
  shows "(start s = (s1, Inl e) \<longrightarrow> s1 = s \<and> e = NoCentroidsDefined \<and> kctr s = []) \<and>
     step s \<noteq> (s2, Inl e) \<and>
     (run s maxi = Some (s3, Inl e, n) \<longrightarrow>
        s3 = s \<and> e = NoCentroidsDefined \<and> kctr s = [] \<and> n = 0) \<and>
     (find_cluster s pt = Inl e \<longrightarrow> e = EmptySequence \<and> kctr s = []) \<and>
     (random_centroids s k rs = Some (s4, Inl e') \<longrightarrow>
        s4 = s \<and> e' = InsufficientData \<and> int (length (data s)) < k) \<and>
     (kctr s = [] \<longrightarrow>
        start s = (s, Inl NoCentroidsDefined) \<and>
        run s maxi = Some (s, Inl NoCentroidsDefined, 0)) \<and>
     (int (length (data s)) < k \<longrightarrow>
        random_centroids s k rs = Some (s, Inl InsufficientData)) \<and>
     data (fst (start s)) = data s \<and> kctr (fst (start s)) = kctr s \<and>
     data (fst (step s)) = data s \<and>
     (run s maxi = Some (s5, r5, n5) \<longrightarrow> data s5 = data s)"
proof -
  have a: "start s = (s1, Inl e) \<longrightarrow> s1 = s \<and> e = NoCentroidsDefined \<and> kctr s = []"
  proof
    assume "start s = (s1, Inl e)"
    from start_error [OF this] assms show "s1 = s \<and> e = NoCentroidsDefined \<and> kctr s = []"
      by blast
  qed
  have b: "step s \<noteq> (s2, Inl e)"
  proof
    assume "step s = (s2, Inl e)"
    from step_error [OF this] assms show False by blast
  qed
  have c: "run s maxi = Some (s3, Inl e, n) \<longrightarrow>
      s3 = s \<and> e = NoCentroidsDefined \<and> kctr s = [] \<and> n = 0"
  proof
    assume "run s maxi = Some (s3, Inl e, n)"
    from run_error [OF this] assms
    show "s3 = s \<and> e = NoCentroidsDefined \<and> kctr s = [] \<and> n = 0"
      by blast
  qed
  have d: "find_cluster s pt = Inl e \<longrightarrow> e = EmptySequence \<and> kctr s = []"
  proof
    assume "find_cluster s pt = Inl e"
    from find_cluster_error [OF this] assms show "e = EmptySequence \<and> kctr s = []"
      by blast
  qed
  have f: "random_centroids s k rs = Some (s4, Inl e') \<longrightarrow>
      s4 = s \<and> e' = InsufficientData \<and> int (length (data s)) < k"
    by (auto simp: random_centroids_def split: if_splits option.splits)
  have g: "kctr s = [] \<longrightarrow>
      start s = (s, Inl NoCentroidsDefined) \<and> run s maxi = Some (s, Inl NoCentroidsDefined, 0)"
    by (simp add: start_def run_def)
  have h: "int (length (data s)) < k \<longrightarrow>
      random_centroids s k rs = Some (s, Inl InsufficientData)"
    by (simp add: random_centroids_def)
  have i: "data (fst (start s)) = data s \<and> kctr (fst (start s)) = kctr s"
    using start_fields [of s "fst (start s)" "snd (start s)"] by simp
  have j: "data (fst (step s)) = data s"
    using step_fields [of s "fst (step s)" "snd (step s)"] by simp
  have l: "run s maxi = Some (s5, r5, n5) \<longrightarrow> data s5 = data s"
    using run_data by blast
  from a b c d f g h i j l show ?thesis
    by (intro conjI) (erule conjunct1 conjunct2 | assumption)+
qed

lemma ex_scalar_reset:
  "reset_centroids ex_scalar =
     \<lparr>dist_fn = euclidean_distance, kctr = [], kmem = [[[7]]], data = [[7]]\<rparr>"
  by (simp add: ex_scalar_state reset_centroids_def)

theorem errors_before_mutation_witness:
  "(\<forall>p c. dist_fn (reset_centroids ex_scalar) p c \<noteq> Inl NoCentroidsDefined) \<and>
   kmem (reset_centroids ex_scalar) = [[[7]]] \<and>
   start (reset_centroids ex_scalar) = (reset_centroids ex_scalar, Inl NoCentroidsDefined) \<and>
   run (reset_centroids ex_scalar) (Some 3) =
     Some (reset_centroids ex_scalar, Inl NoCentroidsDefined, 0) \<and>
   (\<forall>p c. dist_fn ex_scalar p c \<noteq> Inl InsufficientData) \<and>
   kctr ex_scalar = [[3]] \<and> kmem ex_scalar = [[[7]]] \<and>
   random_centroids ex_scalar 2 [] = Some (ex_scalar, Inl InsufficientData) \<and>
   (\<forall>p c. dist_fn (reset_centroids ex_scalar) p c \<noteq> Inl EmptySequence) \<and>
   find_cluster (reset_centroids ex_scalar) (Tuple [9]) = Inl EmptySequence \<and>
   step (reset_centroids ex_scalar) = (reset_centroids ex_scalar, Inl IndexError) \<and>
   data (fst (start ex_raise)) = data ex_raise \<and>
   kctr (fst (start ex_raise)) = kctr ex_raise \<and>
   data (fst (step ex_raise)) = data ex_raise"
proof -
  let ?s0 = "reset_centroids ex_scalar"
  have n1: "\<forall>p c. dist_fn ?s0 p c \<noteq> Inl NoCentroidsDefined"
    using euclidean_distance_raises by (fastforce simp: ex_scalar_reset)
  have n2: "\<forall>p c. dist_fn ex_scalar p c \<noteq> Inl InsufficientData"
    using euclidean_distance_raises by (fastforce simp: ex_scalar_state)
  have n3: "\<forall>p c. dist_fn ?s0 p c \<noteq> Inl EmptySequence"
    using euclidean_distance_raises by (fastforce simp: ex_scalar_reset)
  have k0: "kctr ?s0 = []" "kmem ?s0 = [[[7]]]"
    by (simp_all add: ex_scalar_reset)
  have k1: "kctr ex_scalar = [[3]]" "kmem ex_scalar = [[[7]]]" "int (length (data ex_scalar)) < 2"
    by (simp_all add: ex_scalar_state)
  note t1 = errors_before_mutation [OF n1, of _ _ "Some 3"]
  note t2 = errors_before_mutation [OF n2, of _ _ _ _ _ _ 2 "[]"]
  note t3 = errors_before_mutation [OF n3]
  have a: "start ?s0 = (?s0, Inl NoCentroidsDefined)"
    "run ?s0 (Some 3) = Some (?s0, Inl NoCentroidsDefined, 0)"
    using t1 k0(1) by simp_all
  have b: "random_centroids ex_scalar 2 [] = Some (ex_scalar, Inl InsufficientData)"
    using t2 k1(3) by simp
  have c: "find_cluster ?s0 (Tuple [9]) = Inl EmptySequence"
    by (simp add: ex_scalar_reset find_cluster_def nearest_def argmin_def)
  have d: "step ?s0 = (?s0, Inl IndexError)"
    by (simp add: ex_scalar_reset step_def)
  have e: "data (fst (start ex_raise)) = data ex_raise"
    "kctr (fst (start ex_raise)) = kctr ex_raise"
    "data (fst (step ex_raise)) = data ex_raise"
    using errors_before_mutation [of ex_raise NoCentroidsDefined] euclidean_distance_raises
    by (fastforce simp: ex_raise_state)+
  show ?thesis
    using n1 k0(2) a n2 k1(1,2) b n3 c d e by - (intro conjI, assumption+)
qed

end
